theory Spec2Isabelle
  imports Complex_Main
begin

section \<open>Conventions of the embedding\<close>

text \<open>
  The limiters of \<^verbatim>\<open>implementations/typescript/examples.ts\<close> are classes whose fields
  and arguments have the TypeScript type \<^verbatim>\<open>number\<close>. A \<^verbatim>\<open>number\<close> is modelled as a
  \<^typ>\<open>real\<close>: rounding, NaN and the infinities of IEEE doubles are outside the model.
  Where the source divides, HOL's division by zero gives 0 while JavaScript gives an
  infinity or NaN: the model is the program only for window sizes other than 0, and
  the \<^verbatim>\<open>resetAt\<close> and \<^verbatim>\<open>retryAfter\<close> of a bucket with rate 0 are not the program's. No
  theorem below rests on such a quotient: window starts are computed for concrete
  window sizes only, and no statement reads the \<^verbatim>\<open>resetAt\<close> or \<^verbatim>\<open>retryAfter\<close> of a
  bucket.

  Every method that reads \<^verbatim>\<open>Date.now()\<close> takes the clock reading as its first
  argument \<open>now\<close> (milliseconds); one call sees one reading. A method that mutates
  \<^verbatim>\<open>this\<close> returns the new state (beside its result, when it has one). The optional
  \<^verbatim>\<open>onRateLimit\<close> callback of the configuration is not configured.

  A loop \<^verbatim>\<open>for (let i = 0; i < n; i++)\<close> runs \<open>nat \<lceil>n\<rceil>\<close> times.
\<close>

definition loop_count :: "real \<Rightarrow> nat" where
  "loop_count n = nat \<lceil>n\<rceil>"

section \<open>RateLimitResult\<close>

record RateLimitResult =
  allowed :: bool
  limit :: real
  remaining :: real
  resetAt :: real
  retryAfter :: "real option"

section \<open>TokenBucketLimiter\<close>

record TokenBucketLimiter =
  tb_capacity :: real
  tb_refillRate :: real
  tb_tokens :: real
  tb_lastRefill :: real

definition TokenBucket_new :: "real \<Rightarrow> real \<Rightarrow> real \<Rightarrow> TokenBucketLimiter" where
  "TokenBucket_new now capacity refillRate =
     \<lparr>tb_capacity = capacity, tb_refillRate = refillRate,
      tb_tokens = capacity, tb_lastRefill = now\<rparr>"

text \<open>
  \<^verbatim>\<open>refill\<close> computes in doubles, where the model computes in reals: in the program two
  refills in a row can differ in the last bit from one refill over the whole time. No
  theorem below rests on the two being equal; the bounds proved of the tokens hold
  under rounding as well, rounding being monotone.
\<close>

definition TokenBucket_refill :: "real \<Rightarrow> TokenBucketLimiter \<Rightarrow> TokenBucketLimiter" where
  "TokenBucket_refill now s =
     (let elapsed = (now - tb_lastRefill s) / 1000;
          tokensToAdd = elapsed * tb_refillRate s
      in s\<lparr>tb_tokens := min (tb_capacity s) (tb_tokens s + tokensToAdd),
            tb_lastRefill := now\<rparr>)"

definition TokenBucket_allowRequest ::
  "real \<Rightarrow> real \<Rightarrow> TokenBucketLimiter \<Rightarrow> RateLimitResult \<times> TokenBucketLimiter" where
  "TokenBucket_allowRequest now tokens s =
     (let s1 = TokenBucket_refill now s in
      if tokens \<le> tb_tokens s1 then
        (let s2 = s1\<lparr>tb_tokens := tb_tokens s1 - tokens\<rparr> in
         (\<lparr>allowed = True, limit = tb_capacity s2,
           remaining = of_int \<lfloor>tb_tokens s2\<rfloor>,
           resetAt = now + ((tb_capacity s2 - tb_tokens s2) / tb_refillRate s2) * 1000,
           retryAfter = None\<rparr>, s2))
      else
        (let tokensNeeded = tokens - tb_tokens s1;
             retry = (tokensNeeded / tb_refillRate s1) * 1000
         in (\<lparr>allowed = False, limit = tb_capacity s1, remaining = 0,
              resetAt = now + retry, retryAfter = Some (retry / 1000)\<rparr>, s1)))"

definition TokenBucket_reset :: "real \<Rightarrow> TokenBucketLimiter \<Rightarrow> TokenBucketLimiter" where
  "TokenBucket_reset now s = s\<lparr>tb_tokens := tb_capacity s, tb_lastRefill := now\<rparr>"

definition TokenBucket_getTokens :: "real \<Rightarrow> TokenBucketLimiter \<Rightarrow> real \<times> TokenBucketLimiter" where
  "TokenBucket_getTokens now s = (let s1 = TokenBucket_refill now s in (tb_tokens s1, s1))"

section \<open>LeakyBucketLimiter\<close>

record LeakyBucketLimiter =
  lb_capacity :: real
  lb_leakRate :: real
  lb_queue :: "real list"
  lb_lastLeak :: real

definition LeakyBucket_new :: "real \<Rightarrow> real \<Rightarrow> real \<Rightarrow> LeakyBucketLimiter" where
  "LeakyBucket_new now capacity leakRate =
     \<lparr>lb_capacity = capacity, lb_leakRate = leakRate, lb_queue = [], lb_lastLeak = now\<rparr>"

text \<open>
  The loop of \<^verbatim>\<open>leak\<close>,
  \<^verbatim>\<open>for (let i = 0; i < Math.min(requestsToLeak, this.queue.length); i++) this.queue.shift()\<close>:
  its bound reads the length of the queue again before every iteration, while the
  queue shrinks.
\<close>

function leak_loop :: "nat \<Rightarrow> int \<Rightarrow> real list \<Rightarrow> real list" where
  "leak_loop i requestsToLeak queue =
     (if int i < min requestsToLeak (int (length queue))
      then leak_loop (Suc i) requestsToLeak (tl queue)
      else queue)"
  by pat_completeness auto
termination
  by (relation "measure (\<lambda>(i, r, q). length q - i)") auto

declare leak_loop.simps [simp del]

definition LeakyBucket_leak :: "real \<Rightarrow> LeakyBucketLimiter \<Rightarrow> LeakyBucketLimiter" where
  "LeakyBucket_leak now s =
     (let elapsed = (now - lb_lastLeak s) / 1000;
          requestsToLeak = \<lfloor>elapsed * lb_leakRate s\<rfloor>
      in s\<lparr>lb_queue := leak_loop 0 requestsToLeak (lb_queue s), lb_lastLeak := now\<rparr>)"

definition LeakyBucket_allowRequest ::
  "real \<Rightarrow> real \<Rightarrow> LeakyBucketLimiter \<Rightarrow> RateLimitResult \<times> LeakyBucketLimiter" where
  "LeakyBucket_allowRequest now tokens s =
     (let s1 = LeakyBucket_leak now s in
      if real (length (lb_queue s1)) + tokens \<le> lb_capacity s1 then
        (let s2 = s1\<lparr>lb_queue := lb_queue s1 @ replicate (loop_count tokens) now\<rparr> in
         (\<lparr>allowed = True, limit = lb_capacity s2,
           remaining = lb_capacity s2 - real (length (lb_queue s2)),
           resetAt = now + (real (length (lb_queue s2)) / lb_leakRate s2) * 1000,
           retryAfter = None\<rparr>, s2))
      else
        (let retry = ((real (length (lb_queue s1)) - lb_capacity s1 + tokens) / lb_leakRate s1) * 1000
         in (\<lparr>allowed = False, limit = lb_capacity s1, remaining = 0,
              resetAt = now + retry, retryAfter = Some (retry / 1000)\<rparr>, s1)))"

definition LeakyBucket_reset :: "real \<Rightarrow> LeakyBucketLimiter \<Rightarrow> LeakyBucketLimiter" where
  "LeakyBucket_reset now s = s\<lparr>lb_queue := [], lb_lastLeak := now\<rparr>"

definition LeakyBucket_getQueueLength ::
  "real \<Rightarrow> LeakyBucketLimiter \<Rightarrow> real \<times> LeakyBucketLimiter" where
  "LeakyBucket_getQueueLength now s =
     (let s1 = LeakyBucket_leak now s in (real (length (lb_queue s1)), s1))"

section \<open>FixedWindowLimiter\<close>

record FixedWindowLimiter =
  fw_windowSize :: real
  fw_limit :: real
  fw_windowStart :: real
  fw_count :: real

definition FixedWindow_getCurrentWindow :: "real \<Rightarrow> FixedWindowLimiter \<Rightarrow> real" where
  "FixedWindow_getCurrentWindow now s = of_int \<lfloor>now / fw_windowSize s\<rfloor> * fw_windowSize s"

text \<open>The constructor takes the window size in seconds and stores milliseconds.\<close>

definition FixedWindow_new :: "real \<Rightarrow> real \<Rightarrow> real \<Rightarrow> FixedWindowLimiter" where
  "FixedWindow_new now windowSize lmt =
     (let s = \<lparr>fw_windowSize = windowSize * 1000, fw_limit = lmt,
               fw_windowStart = 0, fw_count = 0\<rparr>
      in s\<lparr>fw_windowStart := FixedWindow_getCurrentWindow now s\<rparr>)"

definition FixedWindow_allowRequest ::
  "real \<Rightarrow> real \<Rightarrow> FixedWindowLimiter \<Rightarrow> RateLimitResult \<times> FixedWindowLimiter" where
  "FixedWindow_allowRequest now tokens s =
     (let currentWindow = FixedWindow_getCurrentWindow now s;
          s1 = (if currentWindow \<noteq> fw_windowStart s
                then s\<lparr>fw_windowStart := currentWindow, fw_count := 0\<rparr> else s)
      in if fw_count s1 + tokens \<le> fw_limit s1 then
           (let s2 = s1\<lparr>fw_count := fw_count s1 + tokens\<rparr> in
            (\<lparr>allowed = True, limit = fw_limit s2, remaining = fw_limit s2 - fw_count s2,
              resetAt = fw_windowStart s2 + fw_windowSize s2, retryAfter = None\<rparr>, s2))
         else
           (\<lparr>allowed = False, limit = fw_limit s1, remaining = 0,
             resetAt = fw_windowStart s1 + fw_windowSize s1,
             retryAfter = Some ((fw_windowStart s1 + fw_windowSize s1 - now) / 1000)\<rparr>, s1))"

definition FixedWindow_reset :: "real \<Rightarrow> FixedWindowLimiter \<Rightarrow> FixedWindowLimiter" where
  "FixedWindow_reset now s =
     s\<lparr>fw_windowStart := FixedWindow_getCurrentWindow now s, fw_count := 0\<rparr>"

section \<open>SlidingWindowLogLimiter\<close>

record SlidingWindowLogLimiter =
  swl_windowSize :: real
  swl_limit :: real
  swl_requests :: "real list"

definition SlidingWindowLog_new :: "real \<Rightarrow> real \<Rightarrow> SlidingWindowLogLimiter" where
  "SlidingWindowLog_new windowSize lmt =
     \<lparr>swl_windowSize = windowSize * 1000, swl_limit = lmt, swl_requests = []\<rparr>"

text \<open>
  The loop of \<^verbatim>\<open>removeOldRequests\<close>:
  \<^verbatim>\<open>while (this.requests.length > 0 && this.requests[0] <= cutoff) this.requests.shift()\<close>.
\<close>

fun shift_old :: "real \<Rightarrow> real list \<Rightarrow> real list" where
  "shift_old cutoff [] = []"
| "shift_old cutoff (r # requests) =
     (if r \<le> cutoff then shift_old cutoff requests else r # requests)"

definition SlidingWindowLog_removeOldRequests ::
  "real \<Rightarrow> SlidingWindowLogLimiter \<Rightarrow> SlidingWindowLogLimiter" where
  "SlidingWindowLog_removeOldRequests now s =
     (let cutoff = now - swl_windowSize s
      in s\<lparr>swl_requests := shift_old cutoff (swl_requests s)\<rparr>)"

text \<open>
  \<^verbatim>\<open>this.requests[0]\<close> is \<^verbatim>\<open>undefined\<close> on an empty log; \<^verbatim>\<open>undefined\<close> and 0 are
  both falsy in \<^verbatim>\<open>this.requests[0] || now\<close> and in \<^verbatim>\<open>oldestRequest ? ... : ...\<close>.
  \<open>truthy_head\<close> is the first entry when it is truthy.
\<close>

definition truthy_head :: "real list \<Rightarrow> real option" where
  "truthy_head requests =
     (case requests of [] \<Rightarrow> None | r # _ \<Rightarrow> if r = 0 then None else Some r)"

definition SlidingWindowLog_allowRequest ::
  "real \<Rightarrow> real \<Rightarrow> SlidingWindowLogLimiter \<Rightarrow> RateLimitResult \<times> SlidingWindowLogLimiter" where
  "SlidingWindowLog_allowRequest now tokens s =
     (let s1 = SlidingWindowLog_removeOldRequests now s in
      if real (length (swl_requests s1)) + tokens \<le> swl_limit s1 then
        (let s2 = s1\<lparr>swl_requests := swl_requests s1 @ replicate (loop_count tokens) now\<rparr>;
             oldestRequest = (case truthy_head (swl_requests s2) of None \<Rightarrow> now | Some r \<Rightarrow> r)
         in (\<lparr>allowed = True, limit = swl_limit s2,
              remaining = swl_limit s2 - real (length (swl_requests s2)),
              resetAt = oldestRequest + swl_windowSize s2, retryAfter = None\<rparr>, s2))
      else
        (let oldestRequest = truthy_head (swl_requests s1);
             retry = (case oldestRequest of None \<Rightarrow> 0
                      | Some r \<Rightarrow> (r + swl_windowSize s1 - now) / 1000)
         in (\<lparr>allowed = False, limit = swl_limit s1, remaining = 0,
              resetAt = (case oldestRequest of None \<Rightarrow> now | Some r \<Rightarrow> r + swl_windowSize s1),
              retryAfter = Some (max 0 retry)\<rparr>, s1)))"

definition SlidingWindowLog_reset :: "SlidingWindowLogLimiter \<Rightarrow> SlidingWindowLogLimiter" where
  "SlidingWindowLog_reset s = s\<lparr>swl_requests := []\<rparr>"


section \<open>SlidingWindowCounterLimiter\<close>

record window =
  w_start :: real
  w_count :: real

record SlidingWindowCounterLimiter =
  swc_windowSize :: real
  swc_limit :: real
  swc_currentWindow :: window
  swc_previousWindow :: window

definition SlidingWindowCounter_new :: "real \<Rightarrow> real \<Rightarrow> SlidingWindowCounterLimiter" where
  "SlidingWindowCounter_new windowSize lmt =
     \<lparr>swc_windowSize = windowSize * 1000, swc_limit = lmt,
      swc_currentWindow = \<lparr>w_start = 0, w_count = 0\<rparr>,
      swc_previousWindow = \<lparr>w_start = 0, w_count = 0\<rparr>\<rparr>"

definition SlidingWindowCounter_getWindowStart ::
  "real \<Rightarrow> SlidingWindowCounterLimiter \<Rightarrow> real" where
  "SlidingWindowCounter_getWindowStart timestamp s =
     of_int \<lfloor>timestamp / swc_windowSize s\<rfloor> * swc_windowSize s"

definition SlidingWindowCounter_estimateCount ::
  "real \<Rightarrow> SlidingWindowCounterLimiter \<Rightarrow> real" where
  "SlidingWindowCounter_estimateCount now s =
     (let elapsed = now - w_start (swc_currentWindow s);
          overlapPercent = max 0 ((swc_windowSize s - elapsed) / swc_windowSize s)
      in of_int \<lfloor>w_count (swc_previousWindow s) * overlapPercent\<rfloor>
           + w_count (swc_currentWindow s))"

definition SlidingWindowCounter_allowRequest ::
  "real \<Rightarrow> real \<Rightarrow> SlidingWindowCounterLimiter \<Rightarrow> RateLimitResult \<times> SlidingWindowCounterLimiter" where
  "SlidingWindowCounter_allowRequest now tokens s =
     (let windowStart = SlidingWindowCounter_getWindowStart now s;
          s1 = (if windowStart \<noteq> w_start (swc_currentWindow s)
                then s\<lparr>swc_previousWindow := swc_currentWindow s,
                       swc_currentWindow := \<lparr>w_start = windowStart, w_count = 0\<rparr>\<rparr>
                else s);
          estimatedCount = SlidingWindowCounter_estimateCount now s1
      in if estimatedCount + tokens \<le> swc_limit s1 then
           (let s2 = s1\<lparr>swc_currentWindow :=
                          (swc_currentWindow s1)\<lparr>w_count := w_count (swc_currentWindow s1) + tokens\<rparr>\<rparr>
            in (\<lparr>allowed = True, limit = swc_limit s2,
                 remaining = max 0 (swc_limit s2 - estimatedCount - tokens),
                 resetAt = w_start (swc_currentWindow s2) + swc_windowSize s2,
                 retryAfter = None\<rparr>, s2))
         else
           (\<lparr>allowed = False, limit = swc_limit s1, remaining = 0,
             resetAt = w_start (swc_currentWindow s1) + swc_windowSize s1,
             retryAfter = Some ((w_start (swc_currentWindow s1) + swc_windowSize s1 - now) / 1000)\<rparr>,
            s1))"

definition SlidingWindowCounter_reset ::
  "real \<Rightarrow> SlidingWindowCounterLimiter \<Rightarrow> SlidingWindowCounterLimiter" where
  "SlidingWindowCounter_reset now s =
     (let windowStart = SlidingWindowCounter_getWindowStart now s
      in s\<lparr>swc_currentWindow := \<lparr>w_start = windowStart, w_count = 0\<rparr>,
            swc_previousWindow := \<lparr>w_start = 0, w_count = 0\<rparr>\<rparr>)"

definition SlidingWindowCounter_getCurrentCount ::
  "real \<Rightarrow> SlidingWindowCounterLimiter \<Rightarrow> real" where
  "SlidingWindowCounter_getCurrentCount now s = SlidingWindowCounter_estimateCount now s"

section \<open>ConcurrentRequestsLimiter\<close>

record ConcurrentRequestsLimiter =
  cr_maxConcurrent :: real
  cr_activeRequests :: real

definition ConcurrentRequests_new :: "real \<Rightarrow> ConcurrentRequestsLimiter" where
  "ConcurrentRequests_new maxConcurrent =
     \<lparr>cr_maxConcurrent = maxConcurrent, cr_activeRequests = 0\<rparr>"

definition ConcurrentRequests_allowRequest ::
  "real \<Rightarrow> ConcurrentRequestsLimiter \<Rightarrow> RateLimitResult \<times> ConcurrentRequestsLimiter" where
  "ConcurrentRequests_allowRequest tokens s =
     (if cr_activeRequests s + tokens \<le> cr_maxConcurrent s then
        (let s' = s\<lparr>cr_activeRequests := cr_activeRequests s + tokens\<rparr> in
         (\<lparr>allowed = True, limit = cr_maxConcurrent s',
           remaining = cr_maxConcurrent s' - cr_activeRequests s',
           resetAt = 0, retryAfter = None\<rparr>, s'))
      else
        (\<lparr>allowed = False, limit = cr_maxConcurrent s, remaining = 0,
          resetAt = 0, retryAfter = None\<rparr>, s))"

definition ConcurrentRequests_release ::
  "real \<Rightarrow> ConcurrentRequestsLimiter \<Rightarrow> ConcurrentRequestsLimiter" where
  "ConcurrentRequests_release tokens s =
     s\<lparr>cr_activeRequests := max 0 (cr_activeRequests s - tokens)\<rparr>"

definition ConcurrentRequests_reset :: "ConcurrentRequestsLimiter \<Rightarrow> ConcurrentRequestsLimiter" where
  "ConcurrentRequests_reset s = s\<lparr>cr_activeRequests := 0\<rparr>"

definition ConcurrentRequests_getActiveCount :: "ConcurrentRequestsLimiter \<Rightarrow> real" where
  "ConcurrentRequests_getActiveCount s = cr_activeRequests s"

section \<open>MultiTierLimiter\<close>

text \<open>
  A \<^verbatim>\<open>RateLimiter\<close> is an instance of one of the classes above, or a
  \<^verbatim>\<open>MultiTierLimiter\<close> over a list of them. \<^verbatim>\<open>Array.prototype.reduce\<close> without an
  initial value throws a \<^verbatim>\<open>TypeError\<close> on an empty array, which is what
  \<^verbatim>\<open>allowRequest\<close> of a \<^verbatim>\<open>MultiTierLimiter\<close> with no member reaches; a member that
  throws makes the composite throw. The state is returned in either case.

  The members of a composite are distinct objects (no limiter is shared between two
  positions or two composites), and the members see the clock reading of the
  composite's call. \<^verbatim>\<open>DistributedSlidingWindowCounter\<close>, whose state lives in shared
  storage, is modelled on its own further down and not as a member.
\<close>

datatype error = TypeError

datatype limiter =
    TokenBucket TokenBucketLimiter
  | LeakyBucket LeakyBucketLimiter
  | FixedWindow FixedWindowLimiter
  | SlidingWindowLog SlidingWindowLogLimiter
  | SlidingWindowCounter SlidingWindowCounterLimiter
  | ConcurrentRequests ConcurrentRequestsLimiter
  | MultiTier "limiter list"

text \<open>
  \<^verbatim>\<open>results.reduce((most, current) => current.remaining < most.remaining ? current : most)\<close>
\<close>

definition most_restrictive :: "RateLimitResult list \<Rightarrow> error + RateLimitResult" where
  "most_restrictive results =
     (case results of
        [] \<Rightarrow> Inl TypeError
      | r # rs \<Rightarrow>
          Inr (foldl (\<lambda>most current. if remaining current < remaining most then current else most)
                 r rs))"

fun allowRequest :: "real \<Rightarrow> real \<Rightarrow> limiter \<Rightarrow> (error + RateLimitResult) \<times> limiter"
  and MultiTier_loop ::
    "real \<Rightarrow> real \<Rightarrow> limiter list \<Rightarrow> RateLimitResult list \<Rightarrow> (error + RateLimitResult) \<times> limiter list"
where
  "allowRequest now tokens (TokenBucket s) =
     (case TokenBucket_allowRequest now tokens s of (r, s') \<Rightarrow> (Inr r, TokenBucket s'))"
| "allowRequest now tokens (LeakyBucket s) =
     (case LeakyBucket_allowRequest now tokens s of (r, s') \<Rightarrow> (Inr r, LeakyBucket s'))"
| "allowRequest now tokens (FixedWindow s) =
     (case FixedWindow_allowRequest now tokens s of (r, s') \<Rightarrow> (Inr r, FixedWindow s'))"
| "allowRequest now tokens (SlidingWindowLog s) =
     (case SlidingWindowLog_allowRequest now tokens s of (r, s') \<Rightarrow> (Inr r, SlidingWindowLog s'))"
| "allowRequest now tokens (SlidingWindowCounter s) =
     (case SlidingWindowCounter_allowRequest now tokens s of
        (r, s') \<Rightarrow> (Inr r, SlidingWindowCounter s'))"
| "allowRequest now tokens (ConcurrentRequests s) =
     (case ConcurrentRequests_allowRequest tokens s of (r, s') \<Rightarrow> (Inr r, ConcurrentRequests s'))"
| "allowRequest now tokens (MultiTier limiters) =
     (case MultiTier_loop now tokens limiters [] of (r, limiters') \<Rightarrow> (r, MultiTier limiters'))"
| "MultiTier_loop now tokens [] results = (most_restrictive results, [])"
| "MultiTier_loop now tokens (l # limiters) results =
     (case allowRequest now tokens l of
        (Inl e, l') \<Rightarrow> (Inl e, l' # limiters)
      | (Inr result, l') \<Rightarrow>
          if \<not> allowed result then (Inr result, l' # limiters)
          else (case MultiTier_loop now tokens limiters (results @ [result]) of
                  (r, limiters') \<Rightarrow> (r, l' # limiters')))"

section \<open>Distributed counters over shared storage\<close>

text \<open>
  The shared store maps a key to the count stored under it. A key
  \<^verbatim>\<open>`${prefix}:${identifier}:${windowStart}`\<close> is modelled as the triple of its parts.
  Expiry is not modelled: \<^verbatim>\<open>expire\<close> and the TTL of \<^verbatim>\<open>set\<close> leave the counts as they
  are, and no key expires during the runs considered.

  A call of an \<^verbatim>\<open>async\<close> method runs from one \<^verbatim>\<open>await\<close> of a storage command to the
  next without interruption; the storage executes each command atomically; between
  two commands of one call, commands of other calls (of other processes on the same
  store, or of other pending calls in the same process) can be executed. A call is
  therefore a small state machine whose state names the storage command it issues
  next, with the local variables it has computed so far.
\<close>

type_synonym key = "string \<times> string \<times> real"

type_synonym storage = "key \<Rightarrow> real option"

text \<open>\<^verbatim>\<open>current ? parseInt(current) : 0\<close> and \<^verbatim>\<open>Number(v) || 0\<close> on a stored count.\<close>

definition count_of :: "real option \<Rightarrow> real" where
  "count_of v = (case v of None \<Rightarrow> 0 | Some n \<Rightarrow> n)"

text \<open>\<^verbatim>\<open>INCRBY\<close> / \<^verbatim>\<open>storage.increment\<close>: one atomic command; an absent key counts as 0.\<close>

definition incrBy :: "key \<Rightarrow> real \<Rightarrow> storage \<Rightarrow> real \<times> storage" where
  "incrBy k amount st = (let n = count_of (st k) + amount in (n, st(k := Some n)))"

subsection \<open>RedisFixedWindowCounter.consume\<close>

record RedisFixedWindowCounter =
  rfw_windowSize :: real
  rfw_limit :: real
  rfw_identifier :: string

record ConsumeResult =
  c_allowed :: bool
  c_remaining :: real
  c_resetAt :: real

datatype rfw_point =
    RFW_get
  | RFW_incrBy
  | RFW_expire real
  | RFW_returned ConsumeResult

definition rfw_windowStart :: "RedisFixedWindowCounter \<Rightarrow> real \<Rightarrow> real" where
  "rfw_windowStart l clock =
     (let now = clock / 1000 in of_int \<lfloor>now / rfw_windowSize l\<rfloor> * rfw_windowSize l)"

definition rfw_key :: "RedisFixedWindowCounter \<Rightarrow> real \<Rightarrow> key" where
  "rfw_key l clock = (''fixed_window'', rfw_identifier l, rfw_windowStart l clock)"

text \<open>
  One step of \<^verbatim>\<open>consume(tokens)\<close>, called at clock reading \<open>clock\<close> (milliseconds): the
  storage command awaited next, and the code up to the next \<^verbatim>\<open>await\<close> or \<^verbatim>\<open>return\<close>.
\<close>

fun RedisFixedWindowCounter_consume_step ::
  "RedisFixedWindowCounter \<Rightarrow> real \<Rightarrow> real \<Rightarrow> rfw_point \<times> storage \<Rightarrow> rfw_point \<times> storage" where
  "RedisFixedWindowCounter_consume_step l clock tokens (RFW_get, st) =
     (let currentCount = count_of (st (rfw_key l clock)) in
      if currentCount + tokens \<le> rfw_limit l then (RFW_incrBy, st)
      else (RFW_returned \<lparr>c_allowed = False, c_remaining = 0,
              c_resetAt = (rfw_windowStart l clock + rfw_windowSize l) * 1000\<rparr>, st))"
| "RedisFixedWindowCounter_consume_step l clock tokens (RFW_incrBy, st) =
     (case incrBy (rfw_key l clock) tokens st of (newCount, st') \<Rightarrow> (RFW_expire newCount, st'))"
| "RedisFixedWindowCounter_consume_step l clock tokens (RFW_expire newCount, st) =
     (RFW_returned \<lparr>c_allowed = True, c_remaining = rfw_limit l - newCount,
        c_resetAt = (rfw_windowStart l clock + rfw_windowSize l) * 1000\<rparr>, st)"
| "RedisFixedWindowCounter_consume_step l clock tokens (RFW_returned r, st) = (RFW_returned r, st)"

subsection \<open>DistributedSlidingWindowCounter.allowRequest\<close>

record DistributedSlidingWindowCounter =
  dsw_windowSize :: real
  dsw_limit :: real
  dsw_keyPrefix :: string
  dsw_identifier :: string

text \<open>
  The constructor: the window size is given in seconds; \<^verbatim>\<open>keyPrefix\<close> defaults to
  \<^verbatim>\<open>'rate_limit'\<close> and the identifier to \<^verbatim>\<open>'default'\<close> (an empty string is falsy).
\<close>

definition DistributedSlidingWindowCounter_new ::
  "real \<Rightarrow> real \<Rightarrow> string \<Rightarrow> string \<Rightarrow> DistributedSlidingWindowCounter" where
  "DistributedSlidingWindowCounter_new windowSize lmt keyPrefix identifier =
     \<lparr>dsw_windowSize = windowSize * 1000, dsw_limit = lmt,
      dsw_keyPrefix = (if keyPrefix = [] then ''rate_limit'' else keyPrefix),
      dsw_identifier = (if identifier = [] then ''default'' else identifier)\<rparr>"

definition dsw_getWindowStart :: "DistributedSlidingWindowCounter \<Rightarrow> real \<Rightarrow> real" where
  "dsw_getWindowStart l timestamp = of_int \<lfloor>timestamp / dsw_windowSize l\<rfloor> * dsw_windowSize l"

definition dsw_currentKey :: "DistributedSlidingWindowCounter \<Rightarrow> real \<Rightarrow> key" where
  "dsw_currentKey l now = (dsw_keyPrefix l, dsw_identifier l, dsw_getWindowStart l now)"

definition dsw_previousKey :: "DistributedSlidingWindowCounter \<Rightarrow> real \<Rightarrow> key" where
  "dsw_previousKey l now =
     (dsw_keyPrefix l, dsw_identifier l, dsw_getWindowStart l now - dsw_windowSize l)"

datatype dsw_point =
    DSW_get_current
  | DSW_get_previous real
  | DSW_increment real real
  | DSW_set real real
  | DSW_returned RateLimitResult

text \<open>
  One step of \<^verbatim>\<open>allowRequest(tokens)\<close>, called at clock reading \<open>now\<close>. The two
  \<^verbatim>\<open>storage.get\<close> of the \<^verbatim>\<open>Promise.all\<close> are two commands; \<open>DSW_increment\<close> and \<open>DSW_set\<close>
  carry \<^verbatim>\<open>currentCount\<close> and \<^verbatim>\<open>estimatedCount\<close>.
\<close>

fun DistributedSlidingWindowCounter_allowRequest_step ::
  "DistributedSlidingWindowCounter \<Rightarrow> real \<Rightarrow> real \<Rightarrow> dsw_point \<times> storage \<Rightarrow> dsw_point \<times> storage" where
  "DistributedSlidingWindowCounter_allowRequest_step l now tokens (DSW_get_current, st) =
     (DSW_get_previous (count_of (st (dsw_currentKey l now))), st)"
| "DistributedSlidingWindowCounter_allowRequest_step l now tokens (DSW_get_previous currentCount, st) =
     (let previousCount = count_of (st (dsw_previousKey l now));
          windowStart = dsw_getWindowStart l now;
          elapsed = now - windowStart;
          overlapPercent = max 0 ((dsw_windowSize l - elapsed) / dsw_windowSize l);
          estimatedCount = of_int \<lfloor>previousCount * overlapPercent\<rfloor> + currentCount
      in if estimatedCount + tokens \<le> dsw_limit l then (DSW_increment currentCount estimatedCount, st)
         else (DSW_returned \<lparr>allowed = False, limit = dsw_limit l, remaining = 0,
                 resetAt = windowStart + dsw_windowSize l,
                 retryAfter = Some ((windowStart + dsw_windowSize l - now) / 1000)\<rparr>, st))"
| "DistributedSlidingWindowCounter_allowRequest_step l now tokens
       (DSW_increment currentCount estimatedCount, st) =
     (DSW_set currentCount estimatedCount, snd (incrBy (dsw_currentKey l now) tokens st))"
| "DistributedSlidingWindowCounter_allowRequest_step l now tokens
       (DSW_set currentCount estimatedCount, st) =
     (DSW_returned \<lparr>allowed = True, limit = dsw_limit l,
        remaining = max 0 (dsw_limit l - estimatedCount - tokens),
        resetAt = dsw_getWindowStart l now + dsw_windowSize l, retryAfter = None\<rparr>,
      st(dsw_currentKey l now := Some (currentCount + tokens)))"
| "DistributedSlidingWindowCounter_allowRequest_step l now tokens (DSW_returned r, st) =
     (DSW_returned r, st)"

subsection \<open>Concurrent calls\<close>

text \<open>
  Pending calls share the store. A schedule names, step by step, the call whose next
  storage command is executed; a call run to its end without interruption is the case
  of a schedule that names only that call.
\<close>

fun interleave ::
  "('p \<times> storage \<Rightarrow> 'p \<times> storage) list \<Rightarrow> 'p list \<times> storage \<Rightarrow> nat list \<Rightarrow> 'p list \<times> storage" where
  "interleave calls (ps, st) [] = (ps, st)"
| "interleave calls (ps, st) (i # schedule) =
     (if i < length ps \<and> i < length calls
      then (case (calls ! i) (ps ! i, st) of
              (p', st') \<Rightarrow> interleave calls (ps[i := p'], st') schedule)
      else interleave calls (ps, st) schedule)"

section \<open>Call sequences\<close>

text \<open>A caller's interleaving of \<^verbatim>\<open>allowRequest\<close> and \<^verbatim>\<open>release\<close> calls on one limiter.\<close>

datatype cr_call = AllowRequest real | Release real

fun cr_cost :: "cr_call \<Rightarrow> real" where
  "cr_cost (AllowRequest c) = c"
| "cr_cost (Release c) = c"

fun cr_call_step :: "ConcurrentRequestsLimiter \<Rightarrow> cr_call \<Rightarrow> ConcurrentRequestsLimiter" where
  "cr_call_step s (AllowRequest c) = snd (ConcurrentRequests_allowRequest c s)"
| "cr_call_step s (Release c) = ConcurrentRequests_release c s"

definition cr_run :: "ConcurrentRequestsLimiter \<Rightarrow> cr_call list \<Rightarrow> ConcurrentRequestsLimiter" where
  "cr_run s calls = foldl cr_call_step s calls"

text \<open>The total cost of the \<^verbatim>\<open>allowRequest\<close> calls of a run that were admitted.\<close>

fun cr_admitted :: "ConcurrentRequestsLimiter \<Rightarrow> cr_call list \<Rightarrow> real" where
  "cr_admitted s [] = 0"
| "cr_admitted s (AllowRequest c # calls) =
     (if allowed (fst (ConcurrentRequests_allowRequest c s)) then c else 0)
       + cr_admitted (snd (ConcurrentRequests_allowRequest c s)) calls"
| "cr_admitted s (Release c # calls) = cr_admitted (ConcurrentRequests_release c s) calls"

definition nonneg_costs :: "cr_call list \<Rightarrow> bool" where
  "nonneg_costs calls = list_all (\<lambda>c. 0 \<le> cr_cost c) calls"

text \<open>
  A sequence of \<^verbatim>\<open>allowRequest\<close> calls on one fixed-window limiter, each call given as
  its clock reading and its cost; the results are collected in call order.
\<close>

fun FixedWindow_run ::
  "FixedWindowLimiter \<Rightarrow> (real \<times> real) list \<Rightarrow> RateLimitResult list \<times> FixedWindowLimiter" where
  "FixedWindow_run s [] = ([], s)"
| "FixedWindow_run s ((now, tokens) # calls) =
     (case FixedWindow_allowRequest now tokens s of
        (r, s') \<Rightarrow> (case FixedWindow_run s' calls of (rs, s'') \<Rightarrow> (r # rs, s'')))"

text \<open>The first step of \<^verbatim>\<open>FixedWindowLimiter.allowRequest\<close>: adopt the window of \<open>now\<close>.\<close>

definition fw_roll :: "real \<Rightarrow> FixedWindowLimiter \<Rightarrow> FixedWindowLimiter" where
  "fw_roll now s =
     (if FixedWindow_getCurrentWindow now s \<noteq> fw_windowStart s
      then s\<lparr>fw_windowStart := FixedWindow_getCurrentWindow now s, fw_count := 0\<rparr> else s)"

text \<open>
  Calls on a token bucket or a leaky bucket: \<^verbatim>\<open>allowRequest(tokens)\<close>, \<^verbatim>\<open>reset()\<close> and the
  accessor (\<^verbatim>\<open>getTokens()\<close>, \<^verbatim>\<open>getQueueLength()\<close>), each with the clock reading it sees.
\<close>

datatype bucket_call = Allow real real | Reset real | Get real

fun call_time :: "bucket_call \<Rightarrow> real" where
  "call_time (Allow now tokens) = now"
| "call_time (Reset now) = now"
| "call_time (Get now) = now"

fun call_cost :: "bucket_call \<Rightarrow> real" where
  "call_cost (Allow now tokens) = tokens"
| "call_cost (Reset now) = 0"
| "call_cost (Get now) = 0"

fun TokenBucket_call :: "TokenBucketLimiter \<Rightarrow> bucket_call \<Rightarrow> TokenBucketLimiter" where
  "TokenBucket_call s (Allow now tokens) = snd (TokenBucket_allowRequest now tokens s)"
| "TokenBucket_call s (Reset now) = TokenBucket_reset now s"
| "TokenBucket_call s (Get now) = snd (TokenBucket_getTokens now s)"

fun LeakyBucket_call :: "LeakyBucketLimiter \<Rightarrow> bucket_call \<Rightarrow> LeakyBucketLimiter" where
  "LeakyBucket_call s (Allow now tokens) = snd (LeakyBucket_allowRequest now tokens s)"
| "LeakyBucket_call s (Reset now) = LeakyBucket_reset now s"
| "LeakyBucket_call s (Get now) = snd (LeakyBucket_getQueueLength now s)"

text \<open>
  The calls the interface allows: the clock never runs backwards (from \<open>t\<close>, the
  reading of the call before), and every cost is a natural number.
\<close>

fun calls_ok :: "real \<Rightarrow> bucket_call list \<Rightarrow> bool" where
  "calls_ok t [] = True"
| "calls_ok t (c # calls) = (t \<le> call_time c \<and> call_cost c \<in> \<nat> \<and> calls_ok (call_time c) calls)"

definition TokenBucket_run :: "TokenBucketLimiter \<Rightarrow> bucket_call list \<Rightarrow> TokenBucketLimiter" where
  "TokenBucket_run s calls = foldl TokenBucket_call s calls"

definition LeakyBucket_run :: "LeakyBucketLimiter \<Rightarrow> bucket_call list \<Rightarrow> LeakyBucketLimiter" where
  "LeakyBucket_run s calls = foldl LeakyBucket_call s calls"

text \<open>The invariant of the token bucket (the rate is fixed and must not be negative).\<close>

definition tb_ok :: "TokenBucketLimiter \<Rightarrow> bool" where
  "tb_ok s = (0 \<le> tb_refillRate s \<and> 0 \<le> tb_tokens s \<and> tb_tokens s \<le> tb_capacity s)"

text \<open>
  A sequence of \<^verbatim>\<open>allowRequest\<close> calls on one sliding-window log, each call given as its
  clock reading and its cost; the results are collected in call order.
\<close>

fun SlidingWindowLog_run ::
  "SlidingWindowLogLimiter \<Rightarrow> (real \<times> real) list \<Rightarrow> RateLimitResult list \<times> SlidingWindowLogLimiter" where
  "SlidingWindowLog_run s [] = ([], s)"
| "SlidingWindowLog_run s ((now, tokens) # calls) =
     (case SlidingWindowLog_allowRequest now tokens s of
        (r, s') \<Rightarrow> (case SlidingWindowLog_run s' calls of (rs, s'') \<Rightarrow> (r # rs, s'')))"

text \<open>The calls of a sequence that were admitted, each with its clock reading and cost.\<close>

definition swl_admitted :: "SlidingWindowLogLimiter \<Rightarrow> (real \<times> real) list \<Rightarrow> (real \<times> real) list" where
  "swl_admitted s calls =
     map fst (filter (\<lambda>(c, r). allowed r) (zip calls (fst (SlidingWindowLog_run s calls))))"

text \<open>
  The calls the interface allows: the clock never runs backwards and every cost is a
  positive integer.
\<close>

definition swl_calls_ok :: "(real \<times> real) list \<Rightarrow> bool" where
  "swl_calls_ok calls =
     (sorted (map fst calls) \<and> list_all (\<lambda>(now, tokens). tokens \<in> \<nat> \<and> 1 \<le> tokens) calls)"

text \<open>The timestamps that the admitted calls appended to the log, in order.\<close>

definition pushed :: "(real \<times> real) list \<Rightarrow> real list" where
  "pushed adm = concat (map (\<lambda>(now, tokens). replicate (loop_count tokens) now) adm)"

text \<open>
  The invariant that ties the log to the history: \<open>calls\<close> are the calls made so far and
  \<open>P\<close> the timestamps pushed so far. The log is sorted, holds only readings of earlier
  calls, is no longer than the limit and agrees with \<open>P\<close> on everything younger than a
  window; and no set of pushed timestamps that spans less than a window is larger than
  the limit.
\<close>

definition swl_inv ::
  "(real \<times> real) list \<Rightarrow> SlidingWindowLogLimiter \<Rightarrow> real list \<Rightarrow> bool" where
  "swl_inv calls s P =
     (set (swl_requests s) \<subseteq> fst ` set calls
      \<and> set P \<subseteq> fst ` set calls
      \<and> sorted (swl_requests s)
      \<and> (\<forall>u. (\<forall>t \<in> fst ` set calls. t \<le> u) \<longrightarrow>
             filter (\<lambda>t. u - swl_windowSize s < t) P
               = filter (\<lambda>t. u - swl_windowSize s < t) (swl_requests s))
      \<and> real (length (swl_requests s)) \<le> swl_limit s
      \<and> (\<forall>w. (\<forall>x y. w x \<longrightarrow> w y \<longrightarrow> x - y < swl_windowSize s) \<longrightarrow>
             real (length (filter w P)) \<le> swl_limit s))"

text \<open>
  Sliding intervals of a given length, half-open at either end, and the admitted calls
  of a history that fall into one: their number and their total cost.
\<close>

definition in_window_left_open :: "real \<Rightarrow> real \<Rightarrow> real \<Rightarrow> bool" where
  "in_window_left_open a len t = (a < t \<and> t \<le> a + len)"

definition in_window_right_open :: "real \<Rightarrow> real \<Rightarrow> real \<Rightarrow> bool" where
  "in_window_right_open a len t = (a \<le> t \<and> t < a + len)"

definition admitted_count :: "(real \<Rightarrow> bool) \<Rightarrow> (real \<times> real) list \<Rightarrow> real" where
  "admitted_count w adm = real (length (filter (\<lambda>(now, tokens). w now) adm))"

definition admitted_cost :: "(real \<Rightarrow> bool) \<Rightarrow> (real \<times> real) list \<Rightarrow> real" where
  "admitted_cost w adm = sum_list (map snd (filter (\<lambda>(now, tokens). w now) adm))"

text \<open>
  What one member does with a call: whether it returns an admitting or a rejecting
  result (a member that throws does neither), and the state it is left in.
\<close>

definition is_admit :: "error + RateLimitResult \<Rightarrow> bool" where
  "is_admit x = (case x of Inl e \<Rightarrow> False | Inr r \<Rightarrow> allowed r)"

definition is_reject :: "error + RateLimitResult \<Rightarrow> bool" where
  "is_reject x = (case x of Inl e \<Rightarrow> False | Inr r \<Rightarrow> \<not> allowed r)"

definition admits :: "real \<Rightarrow> real \<Rightarrow> limiter \<Rightarrow> bool" where
  "admits now tokens l = is_admit (fst (allowRequest now tokens l))"

definition rejects :: "real \<Rightarrow> real \<Rightarrow> limiter \<Rightarrow> bool" where
  "rejects now tokens l = is_reject (fst (allowRequest now tokens l))"

definition state_after :: "real \<Rightarrow> real \<Rightarrow> limiter \<Rightarrow> limiter" where
  "state_after now tokens l = snd (allowRequest now tokens l)"

text \<open>The results that the members of a list return for one call, in list order.\<close>

definition member_results :: "real \<Rightarrow> real \<Rightarrow> limiter list \<Rightarrow> RateLimitResult list" where
  "member_results now tokens limiters =
     List.map_filter
       (\<lambda>l. case fst (allowRequest now tokens l) of Inl e \<Rightarrow> None | Inr r \<Rightarrow> Some r) limiters"

text \<open>
  A sequence of \<^verbatim>\<open>allowRequest\<close> calls on any limiter, each call given as its clock
  reading and its cost; the decision of the next call after a history; and the calls of
  a history that a limiter admits (the calls that reach the next member of a
  \<^verbatim>\<open>MultiTierLimiter\<close>).
\<close>

fun run :: "limiter \<Rightarrow> (real \<times> real) list \<Rightarrow> (error + RateLimitResult) list \<times> limiter" where
  "run l [] = ([], l)"
| "run l ((now, tokens) # calls) =
     (case allowRequest now tokens l of
        (x, l') \<Rightarrow> (case run l' calls of (xs, l'') \<Rightarrow> (x # xs, l'')))"

definition next_decision ::
  "limiter \<Rightarrow> (real \<times> real) list \<Rightarrow> real \<Rightarrow> real \<Rightarrow> error + RateLimitResult" where
  "next_decision l history now tokens = fst (allowRequest now tokens (snd (run l history)))"

fun passed_by :: "limiter \<Rightarrow> (real \<times> real) list \<Rightarrow> (real \<times> real) list" where
  "passed_by l [] = []"
| "passed_by l ((now, tokens) # calls) =
     (case allowRequest now tokens l of
        (x, l') \<Rightarrow> (if is_admit x then [(now, tokens)] else []) @ passed_by l' calls)"

text \<open>
  The first thing \<^verbatim>\<open>allowRequest\<close> of a limiter class does is bring its state up to the
  clock reading (refill, leak, adopt the window of \<open>now\<close>, drop old requests);
  \<open>refreshed\<close> is the state after that. \<open>consumed\<close> is the part of a limiter's budget
  that is in use: the tokens missing from the bucket, the length of the queue or of the
  log, the count of the current window, the active requests.
\<close>

fun refreshed :: "real \<Rightarrow> limiter \<Rightarrow> limiter" where
  "refreshed now (TokenBucket s) = TokenBucket (TokenBucket_refill now s)"
| "refreshed now (LeakyBucket s) = LeakyBucket (LeakyBucket_leak now s)"
| "refreshed now (FixedWindow s) = FixedWindow (fw_roll now s)"
| "refreshed now (SlidingWindowLog s) = SlidingWindowLog (SlidingWindowLog_removeOldRequests now s)"
| "refreshed now (SlidingWindowCounter s) =
     SlidingWindowCounter
       (if SlidingWindowCounter_getWindowStart now s \<noteq> w_start (swc_currentWindow s)
        then s\<lparr>swc_previousWindow := swc_currentWindow s,
               swc_currentWindow :=
                 \<lparr>w_start = SlidingWindowCounter_getWindowStart now s, w_count = 0\<rparr>\<rparr>
        else s)"
| "refreshed now (ConcurrentRequests s) = ConcurrentRequests s"
| "refreshed now (MultiTier limiters) = MultiTier limiters"

fun consumed :: "limiter \<Rightarrow> real" where
  "consumed (TokenBucket s) = tb_capacity s - tb_tokens s"
| "consumed (LeakyBucket s) = real (length (lb_queue s))"
| "consumed (FixedWindow s) = fw_count s"
| "consumed (SlidingWindowLog s) = real (length (swl_requests s))"
| "consumed (SlidingWindowCounter s) = w_count (swc_currentWindow s)"
| "consumed (ConcurrentRequests s) = cr_activeRequests s"
| "consumed (MultiTier limiters) = sum_list (map consumed limiters)"

fun is_tier :: "limiter \<Rightarrow> bool" where
  "is_tier (MultiTier limiters) = True"
| "is_tier l = False"

text \<open>
  A sequence of \<^verbatim>\<open>allowRequest\<close> calls on one sliding-window counter, and the number of
  window transitions (calls that found the window start different from
  \<^verbatim>\<open>currentWindow.start\<close>) that it makes.
\<close>

fun SlidingWindowCounter_run ::
  "SlidingWindowCounterLimiter \<Rightarrow> (real \<times> real) list
     \<Rightarrow> RateLimitResult list \<times> SlidingWindowCounterLimiter" where
  "SlidingWindowCounter_run s [] = ([], s)"
| "SlidingWindowCounter_run s ((now, tokens) # calls) =
     (case SlidingWindowCounter_allowRequest now tokens s of
        (r, s') \<Rightarrow> (case SlidingWindowCounter_run s' calls of (rs, s'') \<Rightarrow> (r # rs, s'')))"

fun swc_transitions :: "SlidingWindowCounterLimiter \<Rightarrow> (real \<times> real) list \<Rightarrow> nat" where
  "swc_transitions s [] = 0"
| "swc_transitions s ((now, tokens) # calls) =
     (if SlidingWindowCounter_getWindowStart now s \<noteq> w_start (swc_currentWindow s) then 1 else 0)
       + swc_transitions (snd (SlidingWindowCounter_allowRequest now tokens s)) calls"

text \<open>The distance between the starts of the two windows a sliding-window counter keeps.\<close>

definition swc_distance :: "SlidingWindowCounterLimiter \<Rightarrow> real" where
  "swc_distance s = w_start (swc_currentWindow s) - w_start (swc_previousWindow s)"

section \<open>Properties of the concurrent-request limiter\<close>

lemma cr_run_Nil: "cr_run s [] = s"
  by (simp add: cr_run_def)

lemma cr_run_Cons: "cr_run s (c # calls) = cr_run (cr_call_step s c) calls"
  by (simp add: cr_run_def)

lemma cr_run_append: "cr_run s (xs @ ys) = cr_run (cr_run s xs) ys"
  by (simp add: cr_run_def)

lemma cr_step_nonneg:
  "0 \<le> cr_activeRequests s \<Longrightarrow> 0 \<le> cr_cost c \<Longrightarrow> 0 \<le> cr_activeRequests (cr_call_step s c)"
  by (cases c) (simp_all add: ConcurrentRequests_allowRequest_def ConcurrentRequests_release_def Let_def)

lemma cr_run_nonneg:
  "0 \<le> cr_activeRequests s \<Longrightarrow> nonneg_costs calls \<Longrightarrow> 0 \<le> cr_activeRequests (cr_run s calls)"
proof (induction calls arbitrary: s)
  case Nil
  then show ?case by (simp add: cr_run_Nil)
next
  case (Cons c calls)
  from Cons.prems have "0 \<le> cr_activeRequests (cr_call_step s c)"
    by (simp add: nonneg_costs_def cr_step_nonneg)
  moreover from Cons.prems have "nonneg_costs calls"
    by (simp add: nonneg_costs_def)
  ultimately show ?case
    using Cons.IH by (simp add: cr_run_Cons)
qed

lemma cr_run_le_admitted:
  "nonneg_costs calls \<Longrightarrow>
   cr_activeRequests (cr_run s calls) \<le> max 0 (cr_activeRequests s) + cr_admitted s calls"
proof (induction calls arbitrary: s)
  case Nil
  then show ?case by (simp add: cr_run_Nil)
next
  case (Cons c calls)
  from Cons.prems have rest: "nonneg_costs calls" and c0: "0 \<le> cr_cost c"
    by (simp_all add: nonneg_costs_def)
  note IH = Cons.IH [OF rest, of "cr_call_step s c"]
  show ?case
  proof (cases c)
    case (AllowRequest x)
    with IH c0 show ?thesis
      by (auto simp: cr_run_Cons ConcurrentRequests_allowRequest_def Let_def max_def
               split: if_splits)
  next
    case (Release x)
    with IH c0 show ?thesis
      by (auto simp: cr_run_Cons ConcurrentRequests_release_def max_def split: if_splits)
  qed
qed

lemma cr_run_releases:
  "list_all (\<lambda>c. 0 \<le> c) rs \<Longrightarrow> 0 \<le> cr_activeRequests s \<Longrightarrow>
   cr_activeRequests (cr_run s (map Release rs)) = max 0 (cr_activeRequests s - sum_list rs)"
proof (induction rs arbitrary: s)
  case Nil
  then show ?case by (simp add: cr_run_Nil)
next
  case (Cons r rs)
  let ?s' = "ConcurrentRequests_release r s"
  from Cons.prems have rs: "list_all (\<lambda>c. 0 \<le> c) rs" and r: "0 \<le> r"
    by simp_all
  from rs have sum: "0 \<le> sum_list rs"
    by (simp add: list_all_iff sum_list_nonneg)
  have a': "cr_activeRequests ?s' = max 0 (cr_activeRequests s - r)"
    by (simp add: ConcurrentRequests_release_def)
  then have "0 \<le> cr_activeRequests ?s'"
    by simp
  from Cons.IH [OF rs this]
  have "cr_activeRequests (cr_run s (map Release (r # rs))) =
          max 0 (max 0 (cr_activeRequests s - r) - sum_list rs)"
    by (simp add: cr_run_Cons a')
  also have "\<dots> = max 0 (cr_activeRequests s - sum_list (r # rs))"
    using sum by (simp add: max_def)
  finally show ?case .
qed

text \<open>
  C9. Start from a fresh limiter and let every cost be non-negative (the interface takes
  a positive integer cost). Then the active count is never negative after any call of
  any interleaving of \<^verbatim>\<open>allowRequest\<close> and \<^verbatim>\<open>release\<close>; and once the calls made so far
  are followed by releases whose total cost is at least the total cost admitted so far
  (in particular by more releases than admissions of the same cost), the active count is
  exactly 0.
\<close>

theorem release_clamps_at_zero:
  assumes "nonneg_costs calls" and "list_all (\<lambda>c. 0 \<le> c) rs"
  shows "0 \<le> cr_activeRequests (cr_run (ConcurrentRequests_new m) calls)
       \<and> (cr_admitted (ConcurrentRequests_new m) calls \<le> sum_list rs \<longrightarrow>
            cr_activeRequests (cr_run (ConcurrentRequests_new m) (calls @ map Release rs)) = 0)"
proof -
  let ?s = "ConcurrentRequests_new m"
  have a0: "cr_activeRequests ?s = 0"
    by (simp add: ConcurrentRequests_new_def)
  have nn: "0 \<le> cr_activeRequests (cr_run ?s calls)"
    using cr_run_nonneg [of ?s calls] assms(1) a0 by simp
  have le: "cr_activeRequests (cr_run ?s calls) \<le> cr_admitted ?s calls"
    using cr_run_le_admitted [OF assms(1), of ?s] a0 by simp
  have "cr_activeRequests (cr_run ?s (calls @ map Release rs)) = 0"
    if "cr_admitted ?s calls \<le> sum_list rs"
    using that le cr_run_releases [OF assms(2) nn]
    by (simp add: cr_run_append max_def)
  with nn show ?thesis by blast
qed

theorem release_clamps_at_zero_witness:
  "cr_activeRequests (cr_run (ConcurrentRequests_new 5)
      [AllowRequest 1, AllowRequest 1, Release 1, AllowRequest 1]) = 2
   \<and> cr_activeRequests (cr_run (ConcurrentRequests_new 5)
      ([AllowRequest 1, AllowRequest 1, Release 1, AllowRequest 1] @ map Release [1, 1, 1, 1])) = 0"
proof -
  have h1: "nonneg_costs [AllowRequest 1, AllowRequest 1, Release 1, AllowRequest 1]"
    by (simp add: nonneg_costs_def)
  have h2: "list_all (\<lambda>c. 0 \<le> c) [1, 1, 1, 1 :: real]"
    by simp
  have adm: "cr_admitted (ConcurrentRequests_new 5)
      [AllowRequest 1, AllowRequest 1, Release 1, AllowRequest 1] = 3"
    by (simp add: ConcurrentRequests_new_def ConcurrentRequests_allowRequest_def
        ConcurrentRequests_release_def Let_def)
  have "cr_activeRequests (cr_run (ConcurrentRequests_new 5)
      ([AllowRequest 1, AllowRequest 1, Release 1, AllowRequest 1] @ map Release [1, 1, 1, 1])) = 0"
    using release_clamps_at_zero [OF h1 h2, of 5] adm by simp
  moreover have "cr_activeRequests (cr_run (ConcurrentRequests_new 5)
      [AllowRequest 1, AllowRequest 1, Release 1, AllowRequest 1]) = 2"
    by (simp add: cr_run_def ConcurrentRequests_new_def ConcurrentRequests_allowRequest_def
        ConcurrentRequests_release_def Let_def)
  ultimately show ?thesis by simp
qed

section \<open>The fixed window at a window boundary\<close>

lemma FixedWindow_run_append:
  "FixedWindow_run s (xs @ ys) =
     (case FixedWindow_run s xs of
        (rs, s') \<Rightarrow> (case FixedWindow_run s' ys of (rs', s'') \<Rightarrow> (rs @ rs', s'')))"
  by (induction xs arbitrary: s) (auto split: prod.splits)

lemma fw_roll_idem:
  "fw_roll now (fw_roll now s\<lparr>fw_count := c\<rparr>) = fw_roll now s\<lparr>fw_count := c\<rparr>"
  by (simp add: fw_roll_def FixedWindow_getCurrentWindow_def)

lemma fw_admit:
  "fw_count (fw_roll now s) + 1 \<le> fw_limit s \<Longrightarrow>
   FixedWindow_allowRequest now 1 s =
     (\<lparr>allowed = True, limit = fw_limit s,
       remaining = fw_limit s - (fw_count (fw_roll now s) + 1),
       resetAt = fw_windowStart (fw_roll now s) + fw_windowSize s, retryAfter = None\<rparr>,
      fw_roll now s\<lparr>fw_count := fw_count (fw_roll now s) + 1\<rparr>)"
  by (auto simp: FixedWindow_allowRequest_def fw_roll_def Let_def split: if_splits)

text \<open>A burst of \<open>n\<close> unit-cost calls at one instant that fits the window is admitted whole.\<close>

lemma fw_burst:
  "fw_count (fw_roll now s) + real n \<le> fw_limit s \<Longrightarrow>
   list_all allowed (fst (FixedWindow_run s (replicate n (now, 1)))) \<and>
   length (fst (FixedWindow_run s (replicate n (now, 1)))) = n \<and>
   snd (FixedWindow_run s (replicate n (now, 1))) =
     (if n = 0 then s else fw_roll now s\<lparr>fw_count := fw_count (fw_roll now s) + real n\<rparr>)"
proof (induction n arbitrary: s)
  case 0
  then show ?case by simp
next
  case (Suc n)
  let ?s' = "fw_roll now s\<lparr>fw_count := fw_count (fw_roll now s) + 1\<rparr>"
  from Suc.prems have one: "fw_count (fw_roll now s) + 1 \<le> fw_limit s"
    by simp
  have roll': "fw_roll now ?s' = ?s'"
    by (rule fw_roll_idem)
  have lim': "fw_limit ?s' = fw_limit s"
    by (simp add: fw_roll_def)
  from Suc.prems have "fw_count (fw_roll now ?s') + real n \<le> fw_limit ?s'"
    by (simp add: roll' lim')
  from Suc.IH [OF this] show ?case
    by (cases n) (simp_all add: fw_admit [OF one] roll' split: prod.splits)
qed

lemma FixedWindow_new_first_window:
  "0 \<le> t0 \<Longrightarrow> t0 < 1000 \<Longrightarrow>
   FixedWindow_new t0 1 L =
     \<lparr>fw_windowSize = 1000, fw_limit = L, fw_windowStart = 0, fw_count = 0\<rparr>"
  by (simp add: FixedWindow_getCurrentWindow_def FixedWindow_new_def Let_def floor_eq_iff)

text \<open>
  C8. A \<^verbatim>\<open>FixedWindowLimiter\<close> of one second (1000 ms) and limit \<open>L\<close>, constructed at
  any instant of the window [0, 1000) that contains t = 999 ms: \<open>L\<close> calls of cost 1 at
  t = 999 ms followed by \<open>L\<close> calls of cost 1 at t = 1001 ms return \<open>2 L\<close> results, all
  of them admitted.
\<close>

theorem fixed_window_boundary_burst:
  assumes "0 \<le> t0" and "t0 < 1000"
  shows "length (fst (FixedWindow_run (FixedWindow_new t0 1 (real L))
            (replicate L (999, 1) @ replicate L (1001, 1)))) = 2 * L
       \<and> list_all allowed (fst (FixedWindow_run (FixedWindow_new t0 1 (real L))
            (replicate L (999, 1) @ replicate L (1001, 1))))"
proof -
  let ?s0 = "\<lparr>fw_windowSize = 1000, fw_limit = real L, fw_windowStart = 0, fw_count = 0\<rparr>"
  have s0: "FixedWindow_new t0 1 (real L) = ?s0"
    using assms by (rule FixedWindow_new_first_window)
  obtain rs1 s1 where run1: "FixedWindow_run ?s0 (replicate L (999, 1)) = (rs1, s1)"
    by (cases "FixedWindow_run ?s0 (replicate L (999, 1))")
  obtain rs2 s2 where run2: "FixedWindow_run s1 (replicate L (1001, 1)) = (rs2, s2)"
    by (cases "FixedWindow_run s1 (replicate L (1001, 1))")
  have r0: "fw_roll 999 ?s0 = ?s0"
    by (simp add: fw_roll_def FixedWindow_getCurrentWindow_def)
  have "fw_count (fw_roll 999 ?s0) + real L \<le> fw_limit ?s0"
    by (simp add: r0)
  from fw_burst [OF this]
  have b1: "list_all allowed rs1" "length rs1 = L"
    and s1: "s1 = (if L = 0 then ?s0 else ?s0\<lparr>fw_count := real L\<rparr>)"
    by (simp_all add: run1 r0)
  have r1: "fw_roll 1001 s1 = ?s0\<lparr>fw_windowStart := 1000\<rparr>"
    by (simp add: s1 fw_roll_def FixedWindow_getCurrentWindow_def)
  have "fw_count (fw_roll 1001 s1) + real L \<le> fw_limit s1"
    by (simp add: r1) (simp add: s1)
  from fw_burst [OF this]
  have b2: "list_all allowed rs2" "length rs2 = L"
    by (simp_all add: run2)
  from b1 b2 show ?thesis
    by (simp add: s0 FixedWindow_run_append run1 run2)
qed

theorem fixed_window_boundary_burst_witness:
  "list_all allowed (fst (FixedWindow_run (FixedWindow_new 500 1 2)
     [(999, 1), (999, 1), (1001, 1), (1001, 1)]))"
proof -
  have "(0::real) \<le> 500" and "(500::real) < 1000"
    by simp_all
  from fixed_window_boundary_burst [OF this, of 2] show ?thesis
    by (simp add: numeral_2_eq_2)
qed

section \<open>The capacity invariant of the two buckets\<close>

lemma loop_count_of_nat: "loop_count (real n) = n"
  by (simp add: loop_count_def)

lemma loop_count_Nats: "c \<in> \<nat> \<Longrightarrow> real (loop_count c) = c"
  by (erule Nats_cases) (simp add: loop_count_of_nat)

lemma Nats_nonneg: "c \<in> \<nat> \<Longrightarrow> 0 \<le> (c::real)"
  by (erule Nats_cases) simp

lemma length_leak_loop: "length (leak_loop i r q) \<le> length q"
proof (induction i r q rule: leak_loop.induct)
  case (1 i r q)
  show ?case
  proof (cases "int i < min r (int (length q))")
    case True
    from "1.IH" [OF True] have "length (leak_loop (Suc i) r (tl q)) \<le> length q"
      by simp
    moreover from True have "leak_loop i r q = leak_loop (Suc i) r (tl q)"
      by (subst leak_loop.simps) (simp only: if_True)
    ultimately show ?thesis by simp
  next
    case False
    then have "leak_loop i r q = q"
      by (subst leak_loop.simps) (simp only: if_False)
    then show ?thesis by simp
  qed
qed

lemma tb_refill_ok:
  "tb_ok s \<Longrightarrow> tb_lastRefill s \<le> now \<Longrightarrow> tb_ok (TokenBucket_refill now s)"
  by (simp add: tb_ok_def TokenBucket_refill_def Let_def min_def)

lemma tb_call_ok:
  assumes "tb_ok s" and "tb_lastRefill s \<le> call_time c" and "0 \<le> call_cost c"
  shows "tb_ok (TokenBucket_call s c) \<and> tb_lastRefill (TokenBucket_call s c) = call_time c
       \<and> tb_capacity (TokenBucket_call s c) = tb_capacity s"
proof (cases c)
  case (Allow now tokens)
  with assms have "tb_ok (TokenBucket_refill now s)"
    by (simp add: tb_refill_ok)
  with Allow assms(3) show ?thesis
    by (auto simp: TokenBucket_allowRequest_def Let_def tb_ok_def TokenBucket_refill_def)
next
  case (Reset now)
  with assms show ?thesis
    by (auto simp: TokenBucket_reset_def tb_ok_def)
next
  case (Get now)
  with assms have "tb_ok (TokenBucket_refill now s)"
    by (simp add: tb_refill_ok)
  with Get show ?thesis
    by (auto simp: TokenBucket_getTokens_def Let_def tb_ok_def TokenBucket_refill_def)
qed

lemma tb_run_ok:
  "tb_ok s \<Longrightarrow> calls_ok (tb_lastRefill s) calls \<Longrightarrow>
   tb_ok (TokenBucket_run s calls) \<and> tb_capacity (TokenBucket_run s calls) = tb_capacity s"
proof (induction calls arbitrary: s)
  case Nil
  then show ?case by (simp add: TokenBucket_run_def)
next
  case (Cons c calls)
  from Cons.prems have c: "tb_lastRefill s \<le> call_time c" "0 \<le> call_cost c"
    and rest: "calls_ok (call_time c) calls"
    by (simp_all add: Nats_nonneg)
  from tb_call_ok [OF Cons.prems(1) c] Cons.IH [of "TokenBucket_call s c"] rest
  show ?case by (simp add: TokenBucket_run_def)
qed

lemma lb_call_ok:
  assumes "real (length (lb_queue s)) \<le> lb_capacity s" and "call_cost c \<in> \<nat>"
  shows "real (length (lb_queue (LeakyBucket_call s c))) \<le> lb_capacity (LeakyBucket_call s c)
       \<and> lb_capacity (LeakyBucket_call s c) = lb_capacity s"
proof -
  have leak: "real (length (lb_queue (LeakyBucket_leak now s))) \<le> lb_capacity s" for now
    using assms(1) length_leak_loop [of 0 "\<lfloor>(now - lb_lastLeak s) / 1000 * lb_leakRate s\<rfloor>" "lb_queue s"]
    by (simp add: LeakyBucket_leak_def Let_def)
  have cap: "lb_capacity (LeakyBucket_leak now s) = lb_capacity s" for now
    by (simp add: LeakyBucket_leak_def Let_def)
  show ?thesis
  proof (cases c)
    case (Allow now tokens)
    with assms(2) have "real (loop_count tokens) = tokens"
      by (simp add: loop_count_Nats)
    with Allow leak [of now] cap [of now] show ?thesis
      by (auto simp: LeakyBucket_allowRequest_def Let_def)
  next
    case (Reset now)
    with assms(1) show ?thesis
      using order_trans [OF of_nat_0_le_iff, of "length (lb_queue s)" "lb_capacity s"]
      by (simp add: LeakyBucket_reset_def)
  next
    case (Get now)
    with leak [of now] cap [of now] show ?thesis
      by (simp add: LeakyBucket_getQueueLength_def Let_def)
  qed
qed


lemma lb_run_ok:
  "real (length (lb_queue s)) \<le> lb_capacity s \<Longrightarrow> calls_ok t calls \<Longrightarrow>
   real (length (lb_queue (LeakyBucket_run s calls))) \<le> lb_capacity s"
proof (induction calls arbitrary: s t)
  case Nil
  then show ?case by (simp add: LeakyBucket_run_def)
next
  case (Cons c calls)
  from Cons.prems have c: "call_cost c \<in> \<nat>" and rest: "calls_ok (call_time c) calls"
    by simp_all
  from lb_call_ok [OF Cons.prems(1) c] Cons.IH [of "LeakyBucket_call s c", OF _ rest]
  show ?case by (simp add: LeakyBucket_run_def)
qed

text \<open>
  C6. A token bucket and a leaky bucket with a capacity that is not negative (and, for
  the token bucket, a refill rate that is not negative), under any sequence of
  \<^verbatim>\<open>allowRequest\<close>, \<^verbatim>\<open>reset\<close> and accessor calls whose clock readings never decrease and
  whose costs are natural numbers: after the sequence (so after every call of it) the
  tokens lie in [0, capacity] and the length of the queue lies in [0, capacity].
\<close>

theorem capacity_invariant:
  assumes "0 \<le> capacity" and "0 \<le> refillRate" and "calls_ok t0 calls"
  shows "0 \<le> tb_tokens (TokenBucket_run (TokenBucket_new t0 capacity refillRate) calls)
       \<and> tb_tokens (TokenBucket_run (TokenBucket_new t0 capacity refillRate) calls) \<le> capacity
       \<and> 0 \<le> real (length (lb_queue (LeakyBucket_run (LeakyBucket_new t0 capacity leakRate) calls)))
       \<and> real (length (lb_queue (LeakyBucket_run (LeakyBucket_new t0 capacity leakRate) calls)))
            \<le> capacity"
proof -
  let ?tb = "TokenBucket_new t0 capacity refillRate"
  let ?lb = "LeakyBucket_new t0 capacity leakRate"
  have "tb_ok ?tb" and "calls_ok (tb_lastRefill ?tb) calls"
    using assms by (simp_all add: tb_ok_def TokenBucket_new_def)
  from tb_run_ok [OF this]
  have "0 \<le> tb_tokens (TokenBucket_run ?tb calls)"
    and "tb_tokens (TokenBucket_run ?tb calls) \<le> capacity"
    by (simp_all add: tb_ok_def TokenBucket_new_def)
  moreover have "real (length (lb_queue ?lb)) \<le> lb_capacity ?lb"
    using assms(1) by (simp add: LeakyBucket_new_def)
  from lb_run_ok [OF this assms(3)]
  have "real (length (lb_queue (LeakyBucket_run ?lb calls))) \<le> capacity"
    by (simp add: LeakyBucket_new_def)
  ultimately show ?thesis by simp
qed

theorem capacity_invariant_witness:
  "0 \<le> tb_tokens (TokenBucket_run (TokenBucket_new 0 10 2)
          [Allow 0 5, Allow 0 6, Get 1000, Allow 1500 5, Reset 2000, Allow 9000 1])
   \<and> tb_tokens (TokenBucket_run (TokenBucket_new 0 10 2)
          [Allow 0 5, Allow 0 6, Get 1000, Allow 1500 5, Reset 2000, Allow 9000 1]) \<le> 10
   \<and> real (length (lb_queue (LeakyBucket_run (LeakyBucket_new 0 10 3)
          [Allow 0 5, Allow 0 6, Get 1000, Allow 1500 5, Reset 2000, Allow 9000 1]))) \<le> 10"
proof -
  have "(0::real) \<le> 10" and "(0::real) \<le> 2"
    and "calls_ok 0 [Allow 0 5, Allow 0 6, Get 1000, Allow 1500 5, Reset 2000, Allow 9000 1]"
    by simp_all
  from capacity_invariant [OF this, of 3] show ?thesis
    by simp
qed

section \<open>Exactness of the sliding-window log\<close>

lemma shift_old_sorted:
  "sorted requests \<Longrightarrow> shift_old cutoff requests = filter (\<lambda>t. cutoff < t) requests"
proof (induction requests)
  case Nil
  then show ?case by simp
next
  case (Cons r requests)
  show ?case
  proof (cases "r \<le> cutoff")
    case True
    with Cons show ?thesis by simp
  next
    case False
    with Cons.prems have "\<forall>t \<in> set (r # requests). cutoff < t"
      by auto
    then have "filter (\<lambda>t. cutoff < t) (r # requests) = r # requests"
      by (simp only: filter_True)
    with False show ?thesis by simp
  qed
qed

lemma filter_younger_twice:
  "now \<le> u \<Longrightarrow> filter (\<lambda>t. u - W < t) (filter (\<lambda>t. now - W < t) xs) = filter (\<lambda>t. u - (W::real) < t) xs"
  by (induction xs) auto

lemma swl_invI:
  assumes "set (swl_requests s) \<subseteq> fst ` set calls"
    and "set P \<subseteq> fst ` set calls"
    and "sorted (swl_requests s)"
    and "real (length (swl_requests s)) \<le> swl_limit s"
    and "\<And>u. \<forall>t \<in> fst ` set calls. t \<le> u \<Longrightarrow>
           filter (\<lambda>t. u - swl_windowSize s < t) P
             = filter (\<lambda>t. u - swl_windowSize s < t) (swl_requests s)"
    and "\<And>w. \<forall>x y. w x \<longrightarrow> w y \<longrightarrow> x - y < swl_windowSize s \<Longrightarrow>
           real (length (filter w P)) \<le> swl_limit s"
  shows "swl_inv calls s P"
  using assms unfolding swl_inv_def by blast

lemma swl_inv_step:
  assumes inv: "swl_inv calls s P"
    and later: "\<forall>t \<in> fst ` set calls. t \<le> now"
    and cost: "tokens \<in> \<nat>"
    and step: "SlidingWindowLog_allowRequest now tokens s = (r, s')"
  shows "swl_inv (calls @ [(now, tokens)]) s'
           (P @ (if allowed r then replicate (loop_count tokens) now else []))"
proof -
  let ?W = "swl_windowSize s"
  let ?young = "\<lambda>t. now - ?W < t"
  let ?s1 = "SlidingWindowLog_removeOldRequests now s"
  from inv have sub: "set (swl_requests s) \<subseteq> fst ` set calls"
    and subP: "set P \<subseteq> fst ` set calls"
    and srt: "sorted (swl_requests s)"
    and agree: "\<And>u. (\<forall>t \<in> fst ` set calls. t \<le> u) \<Longrightarrow>
             filter (\<lambda>t. u - ?W < t) P = filter (\<lambda>t. u - ?W < t) (swl_requests s)"
    and len: "real (length (swl_requests s)) \<le> swl_limit s"
    and spread: "\<And>w. (\<forall>x y. w x \<longrightarrow> w y \<longrightarrow> x - y < ?W) \<Longrightarrow>
             real (length (filter w P)) \<le> swl_limit s"
    by (simp_all add: swl_inv_def)
  have req1: "swl_requests ?s1 = filter ?young (swl_requests s)"
    by (simp add: SlidingWindowLog_removeOldRequests_def Let_def shift_old_sorted [OF srt])
  have cfg1: "swl_windowSize ?s1 = ?W" "swl_limit ?s1 = swl_limit s"
    by (simp_all add: SlidingWindowLog_removeOldRequests_def Let_def)
  have len1: "real (length (swl_requests ?s1)) \<le> swl_limit s"
  proof -
    have "length (swl_requests ?s1) \<le> length (swl_requests s)"
      by (simp add: req1)
    with len show ?thesis by linarith
  qed
  have old_le: "\<forall>t \<in> set (swl_requests ?s1). t \<le> now"
    using sub later by (auto simp: req1)
  have agree1: "filter (\<lambda>t. u - ?W < t) P = filter (\<lambda>t. u - ?W < t) (swl_requests ?s1)"
    if "now \<le> u" for u
  proof -
    from that later have "\<forall>t \<in> fst ` set calls. t \<le> u"
      by fastforce
    from agree [OF this] show ?thesis
      unfolding req1 filter_younger_twice [OF that] .
  qed
  show ?thesis
  proof (cases "real (length (swl_requests ?s1)) + tokens \<le> swl_limit ?s1")
    case False
    with step have r: "\<not> allowed r" and s': "s' = ?s1"
      by (auto simp: SlidingWindowLog_allowRequest_def Let_def)
    show ?thesis
    proof (rule swl_invI)
      show "set (swl_requests s') \<subseteq> fst ` set (calls @ [(now, tokens)])"
        using sub by (auto simp: s' req1)
      show "set (P @ (if allowed r then replicate (loop_count tokens) now else []))
              \<subseteq> fst ` set (calls @ [(now, tokens)])"
        using subP r by auto
      show "sorted (swl_requests s')"
        using srt by (simp add: s' req1 sorted_wrt_filter)
      show "real (length (swl_requests s')) \<le> swl_limit s'"
        using len1 by (simp add: s' cfg1)
      show "filter (\<lambda>t. u - swl_windowSize s' < t)
              (P @ (if allowed r then replicate (loop_count tokens) now else []))
            = filter (\<lambda>t. u - swl_windowSize s' < t) (swl_requests s')"
        if "\<forall>t \<in> fst ` set (calls @ [(now, tokens)]). t \<le> u" for u
      proof -
        from that have "now \<le> u" by simp
        from agree1 [OF this] r show ?thesis
          by (simp add: s' cfg1)
      qed
      show "real (length (filter w (P @ (if allowed r then replicate (loop_count tokens) now else []))))
              \<le> swl_limit s'"
        if "\<forall>x y. w x \<longrightarrow> w y \<longrightarrow> x - y < swl_windowSize s'" for w
        using spread [of w] that r by (simp add: s' cfg1)
    qed
  next
    case True
    let ?new = "replicate (loop_count tokens) now"
    from True step have r: "allowed r"
      and s': "s' = ?s1\<lparr>swl_requests := swl_requests ?s1 @ ?new\<rparr>"
      by (auto simp: SlidingWindowLog_allowRequest_def Let_def)
    have req': "swl_requests s' = swl_requests ?s1 @ ?new"
      by (simp add: s')
    have cfg': "swl_windowSize s' = ?W" "swl_limit s' = swl_limit s"
      by (simp_all add: s' cfg1)
    from cost have n: "real (loop_count tokens) = tokens"
      by (rule loop_count_Nats)
    have len': "real (length (swl_requests s')) \<le> swl_limit s"
      using True n by (simp add: s' cfg1)
    have agree': "filter (\<lambda>t. u - ?W < t) (P @ ?new) = filter (\<lambda>t. u - ?W < t) (swl_requests s')"
      if "now \<le> u" for u
      using agree1 [OF that] by (simp add: req')
    show ?thesis
    proof (rule swl_invI)
      show "set (swl_requests s') \<subseteq> fst ` set (calls @ [(now, tokens)])"
        using sub by (auto simp: req' req1)
      show "set (P @ (if allowed r then ?new else [])) \<subseteq> fst ` set (calls @ [(now, tokens)])"
        using subP by auto
      show "sorted (swl_requests s')"
        using srt old_le by (simp add: req' sorted_append) (simp add: req1 sorted_wrt_filter)
      show "real (length (swl_requests s')) \<le> swl_limit s'"
        using len' by (simp add: cfg')
      show "filter (\<lambda>t. u - swl_windowSize s' < t) (P @ (if allowed r then ?new else []))
            = filter (\<lambda>t. u - swl_windowSize s' < t) (swl_requests s')"
        if "\<forall>t \<in> fst ` set (calls @ [(now, tokens)]). t \<le> u" for u
      proof -
        from that have "now \<le> u" by simp
        from agree' [OF this] r show ?thesis
          by (simp only: cfg' if_True)
      qed
      show "real (length (filter w (P @ (if allowed r then ?new else [])))) \<le> swl_limit s'"
        if w: "\<forall>x y. w x \<longrightarrow> w y \<longrightarrow> x - y < swl_windowSize s'" for w
      proof (cases "w now")
        case False
        then have "filter w (P @ ?new) = filter w P"
          by simp
        with spread [of w] w r show ?thesis by (simp add: cfg')
      next
        case True
        have young: "?young t" if "w t" for t
        proof -
          from w True that have "now - t < ?W"
            by (simp add: cfg')
          then show ?thesis by linarith
        qed
        have ag: "filter ?young (P @ ?new) = filter ?young (swl_requests s')"
          by (rule agree') simp
        have "filter w (P @ ?new) = filter (\<lambda>t. ?young t \<and> w t) (P @ ?new)"
          by (rule filter_cong) (auto dest: young)
        also have "\<dots> = filter w (filter ?young (P @ ?new))"
          by (simp only: filter_filter)
        also have "\<dots> = filter w (filter ?young (swl_requests s'))"
          by (simp only: ag)
        finally have "length (filter w (P @ ?new)) \<le> length (swl_requests s')"
          by (simp only: le_trans [OF length_filter_le length_filter_le])
        with len' r show ?thesis by (simp add: cfg')
      qed
    qed
  qed
qed

lemma SlidingWindowLog_run_snoc:
  "SlidingWindowLog_run s (calls @ [(now, tokens)]) =
     (case SlidingWindowLog_run s calls of
        (rs, s') \<Rightarrow> (case SlidingWindowLog_allowRequest now tokens s' of
                       (r, s'') \<Rightarrow> (rs @ [r], s'')))"
  by (induction calls arbitrary: s) (auto split: prod.splits)

lemma length_SlidingWindowLog_run:
  "length (fst (SlidingWindowLog_run s calls)) = length calls"
proof (induction calls arbitrary: s)
  case Nil
  then show ?case by simp
next
  case (Cons c calls)
  obtain now tokens where c: "c = (now, tokens)"
    by (cases c)
  obtain r s1 where step: "SlidingWindowLog_allowRequest now tokens s = (r, s1)"
    by (cases "SlidingWindowLog_allowRequest now tokens s")
  obtain rs s2 where run: "SlidingWindowLog_run s1 calls = (rs, s2)"
    by (cases "SlidingWindowLog_run s1 calls")
  from Cons.IH [of s1] show ?case
    by (simp add: c step run)
qed

lemma swl_admitted_snoc:
  assumes "SlidingWindowLog_run s calls = (rs, s')"
    and "SlidingWindowLog_allowRequest now tokens s' = (r, s'')"
  shows "swl_admitted s (calls @ [(now, tokens)]) =
           swl_admitted s calls @ (if allowed r then [(now, tokens)] else [])"
proof -
  have "length calls = length rs"
    using length_SlidingWindowLog_run [of s calls] assms(1) by simp
  then show ?thesis
    using assms by (simp add: swl_admitted_def SlidingWindowLog_run_snoc)
qed

lemma pushed_snoc:
  "pushed (adm @ (if b then [(now, tokens)] else [])) =
     pushed adm @ (if b then replicate (loop_count tokens) now else [])"
  by (simp add: pushed_def)

lemma swl_calls_ok_snoc:
  "swl_calls_ok (calls @ [(now, tokens)]) \<longleftrightarrow>
     swl_calls_ok calls \<and> (\<forall>t \<in> fst ` set calls. t \<le> now) \<and> tokens \<in> \<nat> \<and> 1 \<le> tokens"
  by (auto simp: swl_calls_ok_def sorted_append)

lemma swl_inv_new: "0 \<le> L \<Longrightarrow> swl_inv [] (SlidingWindowLog_new W L) []"
  by (simp add: swl_inv_def SlidingWindowLog_new_def)

lemma swl_allowRequest_config:
  "swl_windowSize (snd (SlidingWindowLog_allowRequest now tokens s)) = swl_windowSize s
   \<and> swl_limit (snd (SlidingWindowLog_allowRequest now tokens s)) = swl_limit s"
  by (simp add: SlidingWindowLog_allowRequest_def SlidingWindowLog_removeOldRequests_def Let_def)

lemma swl_run_config:
  "swl_windowSize (snd (SlidingWindowLog_run s calls)) = swl_windowSize s
   \<and> swl_limit (snd (SlidingWindowLog_run s calls)) = swl_limit s"
proof (induction calls arbitrary: s)
  case Nil
  then show ?case by simp
next
  case (Cons c calls)
  obtain now tokens where c: "c = (now, tokens)"
    by (cases c)
  obtain r s1 where step: "SlidingWindowLog_allowRequest now tokens s = (r, s1)"
    by (cases "SlidingWindowLog_allowRequest now tokens s")
  obtain rs s2 where run: "SlidingWindowLog_run s1 calls = (rs, s2)"
    by (cases "SlidingWindowLog_run s1 calls")
  from Cons.IH [of s1] swl_allowRequest_config [of now tokens s]
  show ?case
    by (simp add: c step run)
qed

lemma swl_inv_run:
  "0 \<le> L \<Longrightarrow> swl_calls_ok calls \<Longrightarrow>
   swl_inv calls (snd (SlidingWindowLog_run (SlidingWindowLog_new W L) calls))
     (pushed (swl_admitted (SlidingWindowLog_new W L) calls))"
proof (induction calls rule: rev_induct)
  case Nil
  then show ?case
    by (simp add: swl_inv_new swl_admitted_def pushed_def)
next
  case (snoc c calls)
  let ?s0 = "SlidingWindowLog_new W L"
  obtain now tokens where c: "c = (now, tokens)"
    by (cases c)
  obtain rs s' where run: "SlidingWindowLog_run ?s0 calls = (rs, s')"
    by (cases "SlidingWindowLog_run ?s0 calls")
  obtain r s'' where step: "SlidingWindowLog_allowRequest now tokens s' = (r, s'')"
    by (cases "SlidingWindowLog_allowRequest now tokens s'")
  from snoc.prems(2) have ok: "swl_calls_ok calls"
    and later: "\<forall>t \<in> fst ` set calls. t \<le> now" and cost: "tokens \<in> \<nat>"
    by (simp_all add: c swl_calls_ok_snoc)
  from snoc.IH [OF snoc.prems(1) ok]
  have "swl_inv calls s' (pushed (swl_admitted ?s0 calls))"
    by (simp add: run)
  from swl_inv_step [OF this later cost step] show ?case
    by (simp add: c SlidingWindowLog_run_snoc run step
        swl_admitted_snoc [OF run step] pushed_snoc)
qed

lemma swl_admitted_subset: "set (swl_admitted s calls) \<subseteq> set calls"
proof -
  have "set (swl_admitted s calls)
          \<subseteq> fst ` set (zip calls (fst (SlidingWindowLog_run s calls)))"
    by (auto simp: swl_admitted_def)
  also have "\<dots> \<subseteq> set calls"
    by (auto dest: set_zip_leftD)
  finally show ?thesis .
qed

lemma length_filter_pushed:
  "list_all (\<lambda>(now, tokens). tokens \<in> \<nat>) adm \<Longrightarrow>
   real (length (filter w (pushed adm))) = admitted_cost w adm"
proof (induction adm)
  case Nil
  then show ?case by (simp add: pushed_def admitted_cost_def)
next
  case (Cons c adm)
  obtain now tokens where c: "c = (now, tokens)"
    by (cases c)
  from Cons.prems have "real (loop_count tokens) = tokens"
    by (simp add: c loop_count_Nats)
  with Cons show ?case
    by (simp add: c pushed_def admitted_cost_def)
qed

lemma admitted_count_le_cost:
  "list_all (\<lambda>(now, tokens). 1 \<le> tokens) adm \<Longrightarrow> admitted_count w adm \<le> admitted_cost w adm"
  by (induction adm) (auto simp: admitted_count_def admitted_cost_def)

lemma sliding_log_spread:
  assumes "0 \<le> L" and "swl_calls_ok calls"
    and w: "\<forall>x y. w x \<longrightarrow> w y \<longrightarrow> x - y < W * 1000"
  shows "admitted_cost w (swl_admitted (SlidingWindowLog_new W L) calls) \<le> L"
    and "admitted_count w (swl_admitted (SlidingWindowLog_new W L) calls) \<le> L"
proof -
  let ?s0 = "SlidingWindowLog_new W L"
  let ?adm = "swl_admitted ?s0 calls"
  let ?fin = "snd (SlidingWindowLog_run ?s0 calls)"
  have cfg: "swl_windowSize ?fin = W * 1000" "swl_limit ?fin = L"
    using swl_run_config [of ?s0 calls] by (simp_all add: SlidingWindowLog_new_def)
  from swl_inv_run [OF assms(1,2), of W]
  have "\<And>w. (\<forall>x y. w x \<longrightarrow> w y \<longrightarrow> x - y < swl_windowSize ?fin) \<Longrightarrow>
          real (length (filter w (pushed ?adm))) \<le> swl_limit ?fin"
    unfolding swl_inv_def by blast
  from this [of w] w have pushed_le: "real (length (filter w (pushed ?adm))) \<le> L"
    by (simp add: cfg)
  from assms(2) swl_admitted_subset [of ?s0 calls]
  have nat: "list_all (\<lambda>(now, tokens). tokens \<in> \<nat>) ?adm"
    and pos: "list_all (\<lambda>(now, tokens). 1 \<le> tokens) ?adm"
    by (auto simp: swl_calls_ok_def list_all_iff)
  from pushed_le length_filter_pushed [OF nat, of w]
  show cost: "admitted_cost w ?adm \<le> L"
    by simp
  from admitted_count_le_cost [OF pos, of w] cost
  show "admitted_count w ?adm \<le> L"
    by simp
qed

text \<open>
  C1. A \<^verbatim>\<open>SlidingWindowLogLimiter\<close> of window \<open>W\<close> seconds and limit \<open>L \<ge> 0\<close>, under any
  sequence of \<^verbatim>\<open>allowRequest\<close> calls whose clock readings never decrease and whose
  costs are positive integers: in every sliding interval of length \<open>W\<close> seconds
  (\<open>W * 1000\<close> ms), half-open at either end, the number of admitted calls is at most
  \<open>L\<close>, and so is their total cost. (An interval closed at both ends holds one more
  instant than a window: a request at \<open>a\<close> has left the log when the one at
  \<open>a + W * 1000\<close> arrives.)
\<close>

theorem sliding_log_exact:
  assumes "0 \<le> L" and "swl_calls_ok calls"
  shows "admitted_count (in_window_left_open a (W * 1000))
           (swl_admitted (SlidingWindowLog_new W L) calls) \<le> L
       \<and> admitted_count (in_window_right_open a (W * 1000))
           (swl_admitted (SlidingWindowLog_new W L) calls) \<le> L
       \<and> admitted_cost (in_window_left_open a (W * 1000))
           (swl_admitted (SlidingWindowLog_new W L) calls) \<le> L
       \<and> admitted_cost (in_window_right_open a (W * 1000))
           (swl_admitted (SlidingWindowLog_new W L) calls) \<le> L"
proof -
  have lo: "\<forall>x y. in_window_left_open a (W * 1000) x \<longrightarrow>
              in_window_left_open a (W * 1000) y \<longrightarrow> x - y < W * 1000"
    by (auto simp: in_window_left_open_def)
  have ro: "\<forall>x y. in_window_right_open a (W * 1000) x \<longrightarrow>
              in_window_right_open a (W * 1000) y \<longrightarrow> x - y < W * 1000"
    by (auto simp: in_window_right_open_def)
  from sliding_log_spread [OF assms lo] sliding_log_spread [OF assms ro]
  show ?thesis by simp
qed

theorem sliding_log_exact_witness:
  "swl_admitted (SlidingWindowLog_new 1 2) [(0, 1), (500, 1), (900, 1), (1000, 1), (1600, 1)]
     = [(0, 1), (500, 1), (1000, 1), (1600, 1)]
   \<and> admitted_count (in_window_left_open 0 (1 * 1000))
        (swl_admitted (SlidingWindowLog_new 1 2)
           [(0, 1), (500, 1), (900, 1), (1000, 1), (1600, 1)]) \<le> 2
   \<and> admitted_cost (in_window_right_open 0 (1 * 1000))
        (swl_admitted (SlidingWindowLog_new 1 2)
           [(0, 1), (500, 1), (900, 1), (1000, 1), (1600, 1)]) \<le> 2"
proof -
  have "(0::real) \<le> 2"
    and "swl_calls_ok [(0, 1), (500, 1), (900, 1), (1000, 1), (1600, 1)]"
    by (simp_all add: swl_calls_ok_def)
  from sliding_log_exact [OF this, of 0 1]
  have "admitted_count (in_window_left_open 0 (1 * 1000))
          (swl_admitted (SlidingWindowLog_new 1 2)
             [(0, 1), (500, 1), (900, 1), (1000, 1), (1600, 1)]) \<le> 2"
    and "admitted_cost (in_window_right_open 0 (1 * 1000))
          (swl_admitted (SlidingWindowLog_new 1 2)
             [(0, 1), (500, 1), (900, 1), (1000, 1), (1600, 1)]) \<le> 2"
    by simp_all
  moreover
  have "swl_admitted (SlidingWindowLog_new 1 2) [(0, 1), (500, 1), (900, 1), (1000, 1), (1600, 1)]
          = [(0, 1), (500, 1), (1000, 1), (1600, 1)]"
    by (simp add: swl_admitted_def SlidingWindowLog_new_def SlidingWindowLog_allowRequest_def
        SlidingWindowLog_removeOldRequests_def loop_count_def truthy_head_def Let_def)
  ultimately show ?thesis by simp
qed

section \<open>The multi-tier limiter\<close>

lemma most_restrictive_least:
  "most_restrictive (r # rs) = Inr d \<Longrightarrow>
   d \<in> set (r # rs) \<and> (\<forall>x \<in> set (r # rs). remaining d \<le> remaining x)"
proof (induction rs arbitrary: r)
  case Nil
  then show ?case by (simp add: most_restrictive_def)
next
  case (Cons a rs)
  let ?m = "if remaining a < remaining r then a else r"
  from Cons.prems have "most_restrictive (?m # rs) = Inr d"
    by (simp add: most_restrictive_def)
  from Cons.IH [OF this] show ?case
    by (auto split: if_splits)
qed

lemma most_restrictive_Cons: "\<exists>d. most_restrictive (r # rs) = Inr d"
  by (simp add: most_restrictive_def)

lemma MultiTier_loop_reject:
  assumes "list_all (admits now tokens) pre"
    and "allowRequest now tokens m = (Inr d, m')" and "\<not> allowed d"
  shows "MultiTier_loop now tokens (pre @ m # post) results =
           (Inr d, map (state_after now tokens) pre @ m' # post)"
  using assms(1)
proof (induction pre arbitrary: results)
  case Nil
  with assms(2,3) show ?case by simp
next
  case (Cons l pre)
  from Cons.prems obtain r where l: "allowRequest now tokens l = (Inr r, state_after now tokens l)"
    and r: "allowed r"
    by (cases "allowRequest now tokens l")
       (auto simp: admits_def is_admit_def state_after_def split: sum.splits)
  from Cons.prems have "list_all (admits now tokens) pre"
    by simp
  from Cons.IH [OF this, of "results @ [r]"] l r show ?case
    by simp
qed

lemma MultiTier_loop_admit:
  "list_all (admits now tokens) limiters \<Longrightarrow>
   MultiTier_loop now tokens limiters results =
     (most_restrictive (results @ member_results now tokens limiters),
      map (state_after now tokens) limiters)"
proof (induction limiters arbitrary: results)
  case Nil
  then show ?case by (simp add: member_results_def map_filter_simps)
next
  case (Cons l limiters)
  from Cons.prems obtain r where l: "allowRequest now tokens l = (Inr r, state_after now tokens l)"
    and r: "allowed r"
    by (cases "allowRequest now tokens l")
       (auto simp: admits_def is_admit_def state_after_def split: sum.splits)
  from Cons.prems have "list_all (admits now tokens) limiters"
    by simp
  from Cons.IH [OF this, of "results @ [r]"] l r show ?case
    by (simp add: member_results_def map_filter_simps)
qed

lemma member_results_admit:
  "list_all (admits now tokens) limiters \<Longrightarrow>
   length (member_results now tokens limiters) = length limiters
   \<and> list_all allowed (member_results now tokens limiters)"
proof (induction limiters)
  case Nil
  then show ?case by (simp add: member_results_def map_filter_simps)
next
  case (Cons l limiters)
  then show ?case
    by (auto simp: member_results_def map_filter_simps admits_def is_admit_def split: sum.splits)
qed

text \<open>
  C7. \<^verbatim>\<open>MultiTierLimiter.allowRequest\<close> consults its members in list order. When the
  members before \<open>m\<close> admit and \<open>m\<close> rejects, the result is the result of \<open>m\<close>,
  unchanged; the members before \<open>m\<close> and \<open>m\<close> itself are left in the state their own
  \<^verbatim>\<open>allowRequest\<close> leaves them in, and the members after \<open>m\<close> are untouched (they were
  not consulted). When every member admits, every member is left in the state its own
  \<^verbatim>\<open>allowRequest\<close> leaves it in, and the result returned is one of the members'
  results, with a \<^verbatim>\<open>remaining\<close> no larger than that of any member's result; a result is
  returned unless the composite has no member at all (then \<^verbatim>\<open>reduce\<close> throws).
\<close>

theorem multi_tier_allowRequest:
  "(list_all (admits now tokens) pre \<and> allowRequest now tokens m = (Inr d, m') \<and> \<not> allowed d
      \<longrightarrow> allowRequest now tokens (MultiTier (pre @ m # post)) =
            (Inr d, MultiTier (map (state_after now tokens) pre @ m' # post)))
   \<and> (list_all (admits now tokens) limiters
      \<longrightarrow> snd (allowRequest now tokens (MultiTier limiters)) =
            MultiTier (map (state_after now tokens) limiters)
        \<and> (case fst (allowRequest now tokens (MultiTier limiters)) of
              Inr r \<Rightarrow> r \<in> set (member_results now tokens limiters)
                     \<and> (\<forall>x \<in> set (member_results now tokens limiters). remaining r \<le> remaining x)
            | Inl e \<Rightarrow> limiters = []))"
proof (intro conjI impI)
  assume "list_all (admits now tokens) pre \<and> allowRequest now tokens m = (Inr d, m') \<and> \<not> allowed d"
  then show "allowRequest now tokens (MultiTier (pre @ m # post)) =
            (Inr d, MultiTier (map (state_after now tokens) pre @ m' # post))"
    by (simp add: MultiTier_loop_reject)
next
  assume a: "list_all (admits now tokens) limiters"
  then show "snd (allowRequest now tokens (MultiTier limiters)) =
            MultiTier (map (state_after now tokens) limiters)"
    by (simp add: MultiTier_loop_admit)
next
  assume a: "list_all (admits now tokens) limiters"
  let ?rs = "member_results now tokens limiters"
  have res: "fst (allowRequest now tokens (MultiTier limiters)) = most_restrictive ?rs"
    using a by (simp add: MultiTier_loop_admit)
  show "case fst (allowRequest now tokens (MultiTier limiters)) of
          Inr r \<Rightarrow> r \<in> set ?rs \<and> (\<forall>x \<in> set ?rs. remaining r \<le> remaining x)
        | Inl e \<Rightarrow> limiters = []"
  proof (cases ?rs)
    case Nil
    with member_results_admit [OF a] have "limiters = []"
      by simp
    with Nil show ?thesis
      unfolding res by (simp add: most_restrictive_def)
  next
    case (Cons x xs)
    obtain r where r: "most_restrictive ?rs = Inr r"
      using most_restrictive_Cons [of x xs] Cons by auto
    from most_restrictive_least [of x xs r] r Cons
    have "r \<in> set ?rs" and "\<forall>x \<in> set ?rs. remaining r \<le> remaining x"
      by simp_all
    with r show ?thesis
      unfolding res by simp
  qed
qed

theorem multi_tier_allowRequest_witness:
  "allowRequest 0 1 (MultiTier ([ConcurrentRequests (ConcurrentRequests_new 5)]
       @ ConcurrentRequests (ConcurrentRequests_new 0) # [ConcurrentRequests (ConcurrentRequests_new 3)]))
     = (Inr \<lparr>allowed = False, limit = 0, remaining = 0, resetAt = 0, retryAfter = None\<rparr>,
        MultiTier (map (state_after 0 1) [ConcurrentRequests (ConcurrentRequests_new 5)]
          @ ConcurrentRequests (ConcurrentRequests_new 0) # [ConcurrentRequests (ConcurrentRequests_new 3)]))
   \<and> snd (allowRequest 0 1 (MultiTier [ConcurrentRequests (ConcurrentRequests_new 5),
                                          ConcurrentRequests (ConcurrentRequests_new 3)]))
     = MultiTier (map (state_after 0 1) [ConcurrentRequests (ConcurrentRequests_new 5),
                                          ConcurrentRequests (ConcurrentRequests_new 3)])"
proof -
  have adm: "admits 0 1 (ConcurrentRequests (ConcurrentRequests_new 5))"
      "admits 0 1 (ConcurrentRequests (ConcurrentRequests_new 3))"
    by (simp_all add: admits_def is_admit_def ConcurrentRequests_new_def
        ConcurrentRequests_allowRequest_def Let_def)
  have rej: "allowRequest 0 1 (ConcurrentRequests (ConcurrentRequests_new 0))
      = (Inr \<lparr>allowed = False, limit = 0, remaining = 0, resetAt = 0, retryAfter = None\<rparr>,
         ConcurrentRequests (ConcurrentRequests_new 0))"
    by (simp add: ConcurrentRequests_new_def ConcurrentRequests_allowRequest_def Let_def)
  from multi_tier_allowRequest [of 0 1 "[ConcurrentRequests (ConcurrentRequests_new 5)]"
      "ConcurrentRequests (ConcurrentRequests_new 0)"
      "\<lparr>allowed = False, limit = 0, remaining = 0, resetAt = 0, retryAfter = None\<rparr>"
      "ConcurrentRequests (ConcurrentRequests_new 0)"
      "[ConcurrentRequests (ConcurrentRequests_new 3)]"
      "[ConcurrentRequests (ConcurrentRequests_new 5), ConcurrentRequests (ConcurrentRequests_new 3)]"]
    adm rej
  show ?thesis
    by simp
qed

section \<open>Two tiers: dominance and consumption without admission\<close>

lemma two_tier_state:
  "snd (allowRequest now tokens (MultiTier [A, B])) =
     MultiTier [state_after now tokens A,
                if admits now tokens A then state_after now tokens B else B]"
  by (cases "allowRequest now tokens A"; cases "allowRequest now tokens B")
     (auto simp: admits_def is_admit_def state_after_def split: sum.splits prod.splits)

lemma two_tier_reject:
  "rejects now tokens A \<or> (admits now tokens A \<and> rejects now tokens B) \<Longrightarrow>
   rejects now tokens (MultiTier [A, B])"
  by (cases "allowRequest now tokens A"; cases "allowRequest now tokens B")
     (auto simp: admits_def is_admit_def rejects_def is_reject_def split: sum.splits prod.splits)

lemma run_two_tier:
  "snd (run (MultiTier [A, B]) calls) =
     MultiTier [snd (run A calls), snd (run B (passed_by A calls))]"
proof (induction calls arbitrary: A B)
  case Nil
  then show ?case by simp
next
  case (Cons c calls)
  obtain now tokens where c: "c = (now, tokens)"
    by (cases c)
  let ?A' = "state_after now tokens A"
  let ?B' = "if admits now tokens A then state_after now tokens B else B"
  have run_M: "snd (run (MultiTier [A, B]) (c # calls)) = snd (run (MultiTier [?A', ?B']) calls)"
    using two_tier_state [of now tokens A B]
    by (simp add: c split: prod.splits)
  have run_A: "snd (run A (c # calls)) = snd (run ?A' calls)"
    by (simp add: c state_after_def split: prod.splits)
  have run_B: "snd (run B (passed_by A (c # calls))) = snd (run ?B' (passed_by ?A' calls))"
    by (simp add: c state_after_def admits_def split: prod.splits)
  show ?case
    unfolding run_M run_A run_B by (rule Cons.IH)
qed

text \<open>
  C2 (as amended). Let a \<^verbatim>\<open>MultiTierLimiter([A, B])\<close>, and \<open>A\<close> and \<open>B\<close> on their own,
  each go through the same history of calls. The composite rejects the next call
  whenever \<open>A\<close> alone rejects it; and whenever \<open>A\<close> admits it and \<open>B\<close>, after only those
  calls of the history that \<open>A\<close> admitted (the calls that reach \<open>B\<close> inside the
  composite), rejects it.
\<close>

theorem multi_tier_dominance:
  "(is_reject (next_decision A history now tokens)
      \<longrightarrow> is_reject (next_decision (MultiTier [A, B]) history now tokens))
   \<and> (is_admit (next_decision A history now tokens)
        \<and> is_reject (next_decision B (passed_by A history) now tokens)
      \<longrightarrow> is_reject (next_decision (MultiTier [A, B]) history now tokens))"
  using two_tier_reject [of now tokens "snd (run A history)" "snd (run B (passed_by A history))"]
  by (simp add: next_decision_def run_two_tier rejects_def admits_def)

text \<open>
  C2 as stated fails for the second member: inside the composite \<open>B\<close> is not charged
  for the calls that \<open>A\<close> rejects, so \<open>B\<close> alone can reject a call that the composite
  admits. With \<open>A\<close> a concurrent limiter of 3 and \<open>B\<close> one of 4, after a call of cost 4
  (rejected by \<open>A\<close>, admitted by \<open>B\<close> alone) a call of cost 1 is rejected by \<open>B\<close> alone
  and admitted by the composite.
\<close>

theorem multi_tier_dominance_counterexample:
  "\<not> (\<forall>A B history now tokens.
        is_reject (next_decision A history now tokens)
          \<or> is_reject (next_decision B history now tokens)
        \<longrightarrow> is_reject (next_decision (MultiTier [A, B]) history now tokens))"
proof
  assume all: "\<forall>A B history now tokens.
        is_reject (next_decision A history now tokens)
          \<or> is_reject (next_decision B history now tokens)
        \<longrightarrow> is_reject (next_decision (MultiTier [A, B]) history now tokens)"
  let ?A = "ConcurrentRequests (ConcurrentRequests_new 3)"
  let ?B = "ConcurrentRequests (ConcurrentRequests_new 4)"
  have "is_reject (next_decision ?B [(0, 4)] 0 1)"
    by (simp add: next_decision_def is_reject_def ConcurrentRequests_new_def
        ConcurrentRequests_allowRequest_def Let_def)
  with all have "is_reject (next_decision (MultiTier [?A, ?B]) [(0, 4)] 0 1)"
    by blast
  then show False
    by (simp add: next_decision_def is_reject_def ConcurrentRequests_new_def
        ConcurrentRequests_allowRequest_def most_restrictive_def Let_def)
qed

theorem multi_tier_dominance_witness:
  "is_reject (next_decision (MultiTier [ConcurrentRequests (ConcurrentRequests_new 3),
                                         ConcurrentRequests (ConcurrentRequests_new 4)]) [(0, 4)] 0 4)
   \<and> is_reject (next_decision (MultiTier [ConcurrentRequests (ConcurrentRequests_new 5),
                                           ConcurrentRequests (ConcurrentRequests_new 4)]) [(0, 3)] 0 2)"
proof -
  have "is_reject (next_decision (ConcurrentRequests (ConcurrentRequests_new 3)) [(0, 4)] 0 4)"
    by (simp add: next_decision_def is_reject_def ConcurrentRequests_new_def
        ConcurrentRequests_allowRequest_def Let_def)
  moreover
  have "is_admit (next_decision (ConcurrentRequests (ConcurrentRequests_new 5)) [(0, 3)] 0 2)"
    and "is_reject (next_decision (ConcurrentRequests (ConcurrentRequests_new 4))
           (passed_by (ConcurrentRequests (ConcurrentRequests_new 5)) [(0, 3)]) 0 2)"
    by (simp_all add: next_decision_def is_reject_def is_admit_def ConcurrentRequests_new_def
        ConcurrentRequests_allowRequest_def Let_def)
  ultimately show ?thesis
    using multi_tier_dominance [of "ConcurrentRequests (ConcurrentRequests_new 3)" "[(0, 4)]" 0 4
        "ConcurrentRequests (ConcurrentRequests_new 4)"]
      multi_tier_dominance [of "ConcurrentRequests (ConcurrentRequests_new 5)" "[(0, 3)]" 0 2
        "ConcurrentRequests (ConcurrentRequests_new 4)"]
    by blast
qed

lemma admitted_charge:
  assumes "admits now tokens l" and "\<not> is_tier l" and "tokens \<in> \<nat>"
  shows "consumed (state_after now tokens l) = consumed (refreshed now l) + tokens"
proof (cases l)
  case (TokenBucket s)
  with assms(1) show ?thesis
    by (auto simp: admits_def is_admit_def state_after_def TokenBucket_allowRequest_def
        TokenBucket_refill_def Let_def split: if_splits)
next
  case (LeakyBucket s)
  with assms(1) loop_count_Nats [OF assms(3)] show ?thesis
    by (auto simp: admits_def is_admit_def state_after_def LeakyBucket_allowRequest_def
        Let_def split: if_splits)
next
  case (FixedWindow s)
  with assms(1) show ?thesis
    by (auto simp: admits_def is_admit_def state_after_def FixedWindow_allowRequest_def
        fw_roll_def Let_def split: if_splits)
next
  case (SlidingWindowLog s)
  with assms(1) loop_count_Nats [OF assms(3)] show ?thesis
    by (auto simp: admits_def is_admit_def state_after_def SlidingWindowLog_allowRequest_def
        Let_def split: if_splits)
next
  case (SlidingWindowCounter s)
  with assms(1) show ?thesis
    by (auto simp: admits_def is_admit_def state_after_def SlidingWindowCounter_allowRequest_def
        Let_def split: if_splits)
next
  case (ConcurrentRequests s)
  with assms(1) show ?thesis
    by (auto simp: admits_def is_admit_def state_after_def ConcurrentRequests_allowRequest_def
        Let_def split: if_splits)
next
  case (MultiTier limiters)
  with assms(2) show ?thesis by simp
qed

text \<open>
  C10. When the members before \<open>m\<close> admit a call and \<open>m\<close> rejects it, the composite
  rejects, and every member before \<open>m\<close> is left in the state its own admission left it
  in: nothing is rolled back. For a member that is not itself a composite and a cost
  that is a natural number, that state has the cost added to what the member had
  consumed once brought up to the clock reading. Such a call exists: a concurrent
  limiter of 1 before a concurrent limiter of 0, one call of cost 1; the composite
  rejects, the first member's active count has gone from 0 to 1, and the first member
  now rejects a call it would have admitted.
\<close>

theorem multi_tier_no_rollback:
  "(list_all (admits now tokens) pre \<and> rejects now tokens m
      \<longrightarrow> rejects now tokens (MultiTier (pre @ m # post))
        \<and> state_after now tokens (MultiTier (pre @ m # post)) =
            MultiTier (map (state_after now tokens) pre @ state_after now tokens m # post)
        \<and> (tokens \<in> \<nat> \<longrightarrow>
             (\<forall>l \<in> set pre. \<not> is_tier l \<longrightarrow>
                consumed (state_after now tokens l) = consumed (refreshed now l) + tokens)))
   \<and> (\<exists>A B. admits 0 1 (ConcurrentRequests A)
          \<and> rejects 0 1 (MultiTier [ConcurrentRequests A, B])
          \<and> state_after 0 1 (MultiTier [ConcurrentRequests A, B]) =
              MultiTier [ConcurrentRequests (A\<lparr>cr_activeRequests := cr_activeRequests A + 1\<rparr>), B]
          \<and> rejects 0 1 (ConcurrentRequests (A\<lparr>cr_activeRequests := cr_activeRequests A + 1\<rparr>)))"
proof (intro conjI impI ballI)
  assume a: "list_all (admits now tokens) pre \<and> rejects now tokens m"
  then obtain d where m: "allowRequest now tokens m = (Inr d, state_after now tokens m)"
    and d: "\<not> allowed d"
    by (cases "allowRequest now tokens m")
       (auto simp: rejects_def is_reject_def state_after_def split: sum.splits)
  from a have pre: "list_all (admits now tokens) pre"
    by simp
  from MultiTier_loop_reject [OF pre m d, of post "[]"] d
  show "rejects now tokens (MultiTier (pre @ m # post))"
    and "state_after now tokens (MultiTier (pre @ m # post)) =
            MultiTier (map (state_after now tokens) pre @ state_after now tokens m # post)"
    by (simp_all add: rejects_def is_reject_def state_after_def)
next
  fix l
  assume "list_all (admits now tokens) pre \<and> rejects now tokens m"
    and "tokens \<in> \<nat>" and "l \<in> set pre" and "\<not> is_tier l"
  then show "consumed (state_after now tokens l) = consumed (refreshed now l) + tokens"
    by (simp add: admitted_charge list_all_iff)
next
  let ?A = "ConcurrentRequests_new 1"
  let ?B = "ConcurrentRequests (ConcurrentRequests_new 0)"
  have "admits 0 1 (ConcurrentRequests ?A)
          \<and> rejects 0 1 (MultiTier [ConcurrentRequests ?A, ?B])
          \<and> state_after 0 1 (MultiTier [ConcurrentRequests ?A, ?B]) =
              MultiTier [ConcurrentRequests (?A\<lparr>cr_activeRequests := cr_activeRequests ?A + 1\<rparr>), ?B]
          \<and> rejects 0 1 (ConcurrentRequests (?A\<lparr>cr_activeRequests := cr_activeRequests ?A + 1\<rparr>))"
    by (simp add: admits_def rejects_def is_admit_def is_reject_def state_after_def
        ConcurrentRequests_new_def ConcurrentRequests_allowRequest_def Let_def)
  then show "\<exists>A B. admits 0 1 (ConcurrentRequests A)
          \<and> rejects 0 1 (MultiTier [ConcurrentRequests A, B])
          \<and> state_after 0 1 (MultiTier [ConcurrentRequests A, B]) =
              MultiTier [ConcurrentRequests (A\<lparr>cr_activeRequests := cr_activeRequests A + 1\<rparr>), B]
          \<and> rejects 0 1 (ConcurrentRequests (A\<lparr>cr_activeRequests := cr_activeRequests A + 1\<rparr>))"
    by blast
qed

theorem multi_tier_no_rollback_witness:
  "rejects 0 2 (MultiTier ([FixedWindow (FixedWindow_new 0 1 5)]
      @ ConcurrentRequests (ConcurrentRequests_new 1) # []))
   \<and> consumed (state_after 0 2 (FixedWindow (FixedWindow_new 0 1 5)))
       = consumed (refreshed 0 (FixedWindow (FixedWindow_new 0 1 5))) + 2
   \<and> consumed (state_after 0 2 (FixedWindow (FixedWindow_new 0 1 5))) = 2"
proof -
  have pre: "list_all (admits 0 2) [FixedWindow (FixedWindow_new 0 1 5)]"
    by (simp add: admits_def is_admit_def FixedWindow_new_def FixedWindow_allowRequest_def
        FixedWindow_getCurrentWindow_def Let_def)
  have m: "rejects 0 2 (ConcurrentRequests (ConcurrentRequests_new 1))"
    by (simp add: rejects_def is_reject_def ConcurrentRequests_new_def
        ConcurrentRequests_allowRequest_def Let_def)
  have nat: "(2::real) \<in> \<nat>"
    by simp
  have leaf: "\<not> is_tier (FixedWindow (FixedWindow_new 0 1 5))"
    by simp
  from multi_tier_no_rollback [of 0 2 "[FixedWindow (FixedWindow_new 0 1 5)]"
      "ConcurrentRequests (ConcurrentRequests_new 1)" "[]"] pre m nat leaf
  have "rejects 0 2 (MultiTier ([FixedWindow (FixedWindow_new 0 1 5)]
      @ ConcurrentRequests (ConcurrentRequests_new 1) # []))"
    and "consumed (state_after 0 2 (FixedWindow (FixedWindow_new 0 1 5)))
       = consumed (refreshed 0 (FixedWindow (FixedWindow_new 0 1 5))) + 2"
    by simp_all
  moreover have "consumed (refreshed 0 (FixedWindow (FixedWindow_new 0 1 5))) = 0"
    by (simp add: FixedWindow_new_def fw_roll_def FixedWindow_getCurrentWindow_def Let_def)
  ultimately show ?thesis by simp
qed

section \<open>Window transitions of the sliding-window counter\<close>

lemma swc_allowRequest_starts:
  "w_start (swc_currentWindow (snd (SlidingWindowCounter_allowRequest now tokens s)))
     = SlidingWindowCounter_getWindowStart now s
   \<and> w_start (swc_previousWindow (snd (SlidingWindowCounter_allowRequest now tokens s)))
     = (if SlidingWindowCounter_getWindowStart now s \<noteq> w_start (swc_currentWindow s)
        then w_start (swc_currentWindow s) else w_start (swc_previousWindow s))
   \<and> swc_windowSize (snd (SlidingWindowCounter_allowRequest now tokens s)) = swc_windowSize s"
  by (simp add: SlidingWindowCounter_allowRequest_def Let_def)

lemma swc_transition_distance:
  "SlidingWindowCounter_getWindowStart now s \<noteq> w_start (swc_currentWindow s) \<Longrightarrow>
   swc_distance (snd (SlidingWindowCounter_allowRequest now tokens s))
     = SlidingWindowCounter_getWindowStart now s - w_start (swc_currentWindow s)"
  by (simp add: swc_distance_def swc_allowRequest_starts)

text \<open>
  A transition into the window right after the current one leaves the two window
  starts exactly one window apart; any other transition does not.
\<close>

lemma swc_adjacent_distance:
  assumes "SlidingWindowCounter_getWindowStart now s \<noteq> w_start (swc_currentWindow s)"
  shows "swc_distance (snd (SlidingWindowCounter_allowRequest now tokens s)) = swc_windowSize s
         \<longleftrightarrow> SlidingWindowCounter_getWindowStart now s
               = w_start (swc_currentWindow s) + swc_windowSize s"
  using swc_transition_distance [OF assms, of tokens] by auto

text \<open>
  C3. The claim fails on the code when a window is skipped. A one-second counter with
  limit 1 is called at 1000 ms and at 3000 ms: both calls make a window transition, and
  after the second the two window starts are 2000 ms apart, not 1000 ms.
  \<^verbatim>\<open>previousWindow\<close> is then the window [1000, 2000), whose count still enters the
  estimate: the call at 3000 ms is rejected although no request fell into
  [2000, 3000).
\<close>

theorem sliding_counter_skipped_window:
  "swc_transitions (SlidingWindowCounter_new 1 1) [(1000, 1), (3000, 1)] = 2
   \<and> swc_windowSize (snd (SlidingWindowCounter_run (SlidingWindowCounter_new 1 1)
         [(1000, 1), (3000, 1)])) = 1000
   \<and> swc_distance (snd (SlidingWindowCounter_run (SlidingWindowCounter_new 1 1)
         [(1000, 1), (3000, 1)])) = 2000
   \<and> map allowed (fst (SlidingWindowCounter_run (SlidingWindowCounter_new 1 1)
         [(1000, 1), (3000, 1)])) = [True, False]"
  by (simp add: SlidingWindowCounter_new_def SlidingWindowCounter_allowRequest_def
      SlidingWindowCounter_getWindowStart_def SlidingWindowCounter_estimateCount_def
      swc_distance_def Let_def)

section \<open>The observability accessors\<close>





section \<open>Check and increment on shared storage\<close>

lemma rfw_key_example:
  "rfw_key \<lparr>rfw_windowSize = 60, rfw_limit = 1, rfw_identifier = ''user''\<rparr> 1000
     = (''fixed_window'', ''user'', 0)"
  by (simp add: rfw_key_def rfw_windowStart_def Let_def)

lemma dsw_keys_example:
  "dsw_currentKey (DistributedSlidingWindowCounter_new 60 1 [] ''user'') 1000
     = (''rate_limit'', ''user'', 0)"
  "dsw_previousKey (DistributedSlidingWindowCounter_new 60 1 [] ''user'') 1000
     = (''rate_limit'', ''user'', - 60000)"
  "dsw_getWindowStart (DistributedSlidingWindowCounter_new 60 1 [] ''user'') 1000 = 0"
  by (simp_all add: dsw_currentKey_def dsw_previousKey_def dsw_getWindowStart_def
      DistributedSlidingWindowCounter_new_def)

text \<open>
  C5. The claim fails on the code. \<^verbatim>\<open>RedisFixedWindowCounter.consume\<close> reads the count
  with \<^verbatim>\<open>GET\<close> and adds to it with a separate \<^verbatim>\<open>INCRBY\<close>; two calls of cost 1 on an
  empty window with limit 1 whose commands alternate both read 0 and are both admitted,
  and the stored count becomes 2. Run one after the other, the second call is rejected.
  \<^verbatim>\<open>DistributedSlidingWindowCounter.allowRequest\<close> likewise issues two \<^verbatim>\<open>get\<close>, an
  \<^verbatim>\<open>increment\<close> and a \<^verbatim>\<open>set\<close>: two alternating calls of cost 1 with limit 1 are both
  admitted, and the final \<^verbatim>\<open>set\<close> leaves the stored count at 1.
\<close>

theorem separate_get_and_increment_race:
  "interleave
     [RedisFixedWindowCounter_consume_step
        \<lparr>rfw_windowSize = 60, rfw_limit = 1, rfw_identifier = ''user''\<rparr> 1000 1,
      RedisFixedWindowCounter_consume_step
        \<lparr>rfw_windowSize = 60, rfw_limit = 1, rfw_identifier = ''user''\<rparr> 1000 1]
     ([RFW_get, RFW_get], (\<lambda>k. None)) [0, 1, 0, 1, 0, 1]
   = ([RFW_returned \<lparr>c_allowed = True, c_remaining = 0, c_resetAt = 60000\<rparr>,
       RFW_returned \<lparr>c_allowed = True, c_remaining = - 1, c_resetAt = 60000\<rparr>],
      (\<lambda>k. None)((''fixed_window'', ''user'', 0) := Some 2))
   \<and> interleave
     [RedisFixedWindowCounter_consume_step
        \<lparr>rfw_windowSize = 60, rfw_limit = 1, rfw_identifier = ''user''\<rparr> 1000 1,
      RedisFixedWindowCounter_consume_step
        \<lparr>rfw_windowSize = 60, rfw_limit = 1, rfw_identifier = ''user''\<rparr> 1000 1]
     ([RFW_get, RFW_get], (\<lambda>k. None)) [0, 0, 0, 1, 1, 1]
   = ([RFW_returned \<lparr>c_allowed = True, c_remaining = 0, c_resetAt = 60000\<rparr>,
       RFW_returned \<lparr>c_allowed = False, c_remaining = 0, c_resetAt = 60000\<rparr>],
      (\<lambda>k. None)((''fixed_window'', ''user'', 0) := Some 1))
   \<and> interleave
     [DistributedSlidingWindowCounter_allowRequest_step
        (DistributedSlidingWindowCounter_new 60 1 [] ''user'') 1000 1,
      DistributedSlidingWindowCounter_allowRequest_step
        (DistributedSlidingWindowCounter_new 60 1 [] ''user'') 1000 1]
     ([DSW_get_current, DSW_get_current], (\<lambda>k. None)) [0, 1, 0, 1, 0, 1, 0, 1]
   = ([DSW_returned \<lparr>allowed = True, limit = 1, remaining = 0, resetAt = 60000,
                      retryAfter = None\<rparr>,
       DSW_returned \<lparr>allowed = True, limit = 1, remaining = 0, resetAt = 60000,
                      retryAfter = None\<rparr>],
      (\<lambda>k. None)((''rate_limit'', ''user'', 0) := Some 1))"
proof (intro conjI)
  show "interleave
     [RedisFixedWindowCounter_consume_step
        \<lparr>rfw_windowSize = 60, rfw_limit = 1, rfw_identifier = ''user''\<rparr> 1000 1,
      RedisFixedWindowCounter_consume_step
        \<lparr>rfw_windowSize = 60, rfw_limit = 1, rfw_identifier = ''user''\<rparr> 1000 1]
     ([RFW_get, RFW_get], (\<lambda>k. None)) [0, 1, 0, 1, 0, 1]
   = ([RFW_returned \<lparr>c_allowed = True, c_remaining = 0, c_resetAt = 60000\<rparr>,
       RFW_returned \<lparr>c_allowed = True, c_remaining = - 1, c_resetAt = 60000\<rparr>],
      (\<lambda>k. None)((''fixed_window'', ''user'', 0) := Some 2))"
    by (simp add: rfw_key_example count_of_def incrBy_def Let_def rfw_windowStart_def)
  show "interleave
     [RedisFixedWindowCounter_consume_step
        \<lparr>rfw_windowSize = 60, rfw_limit = 1, rfw_identifier = ''user''\<rparr> 1000 1,
      RedisFixedWindowCounter_consume_step
        \<lparr>rfw_windowSize = 60, rfw_limit = 1, rfw_identifier = ''user''\<rparr> 1000 1]
     ([RFW_get, RFW_get], (\<lambda>k. None)) [0, 0, 0, 1, 1, 1]
   = ([RFW_returned \<lparr>c_allowed = True, c_remaining = 0, c_resetAt = 60000\<rparr>,
       RFW_returned \<lparr>c_allowed = False, c_remaining = 0, c_resetAt = 60000\<rparr>],
      (\<lambda>k. None)((''fixed_window'', ''user'', 0) := Some 1))"
    by (simp add: rfw_key_example count_of_def incrBy_def Let_def rfw_windowStart_def)
  have cfg: "dsw_limit (DistributedSlidingWindowCounter_new 60 1 [] ''user'') = 1"
    "dsw_windowSize (DistributedSlidingWindowCounter_new 60 1 [] ''user'') = 60000"
    by (simp_all add: DistributedSlidingWindowCounter_new_def)
  show "interleave
     [DistributedSlidingWindowCounter_allowRequest_step
        (DistributedSlidingWindowCounter_new 60 1 [] ''user'') 1000 1,
      DistributedSlidingWindowCounter_allowRequest_step
        (DistributedSlidingWindowCounter_new 60 1 [] ''user'') 1000 1]
     ([DSW_get_current, DSW_get_current], (\<lambda>k. None)) [0, 1, 0, 1, 0, 1, 0, 1]
   = ([DSW_returned \<lparr>allowed = True, limit = 1, remaining = 0, resetAt = 60000,
                      retryAfter = None\<rparr>,
       DSW_returned \<lparr>allowed = True, limit = 1, remaining = 0, resetAt = 60000,
                      retryAfter = None\<rparr>],
      (\<lambda>k. None)((''rate_limit'', ''user'', 0) := Some 1))"
    by (simp add: dsw_keys_example cfg count_of_def incrBy_def Let_def)
qed

end
